theory Spec2Isabelle
  imports Main "HOL-Library.Word" "HOL-Library.Multiset"
begin

unbundle bit_operations_syntax

section \<open>Data model\<close>

subsection \<open>Single-precision values\<close>

text \<open>
  A \<^verbatim>\<open>float\<close> is kept as its IEEE-754 binary32 bit pattern: one sign bit, eight
  exponent bits, 23 fraction bits. Only classification and \<^verbatim>\<open>==\<close> are used by the
  code under study (\<^verbatim>\<open>std::isinf\<close>, \<^verbatim>\<open>common::CheckNAN\<close>, \<^verbatim>\<open>value != missing\<close>),
  and all three are functions of the bits: a NaN has all exponent bits set and a
  non-zero fraction, an infinity has all exponent bits set and a zero fraction, and two
  values compare equal when neither is a NaN and they have the same bits or are both
  zeros (of either sign).
\<close>

type_synonym f32 = "32 word"

text \<open>
  Modelled from the spec: \<^verbatim>\<open>common::CheckNAN\<close> (\<^verbatim>\<open>src/common/math.h\<close> is not part of
  the sources at hand), the test "value is NaN" of the validity filter.
\<close>

definition CheckNAN :: "f32 \<Rightarrow> bool" where
  "CheckNAN v = (v AND 0x7F800000 = 0x7F800000 \<and> v AND 0x007FFFFF \<noteq> 0)"

definition isinf :: "f32 \<Rightarrow> bool" where
  "isinf v = (v AND 0x7FFFFFFF = 0x7F800000)"

definition float_eq :: "f32 \<Rightarrow> f32 \<Rightarrow> bool" where
  "float_eq a b = (\<not> CheckNAN a \<and> \<not> CheckNAN b \<and>
     (a = b \<or> (a AND 0x7FFFFFFF = 0 \<and> b AND 0x7FFFFFFF = 0)))"

subsection \<open>Entries, pages, errors\<close>

text \<open>
  Modelled from the spec: \<^verbatim>\<open>Entry\<close> and \<^verbatim>\<open>SparsePage\<close> (\<^verbatim>\<open>include/xgboost/data.h\<close>
  is not part of the sources at hand). An entry is "\<open>(column_index: u32-or-wider,
  value: f32)\<close>"; the index is 32 bits wide here, as \<^verbatim>\<open>GetTranspose\<close> casts the row
  number to \<^verbatim>\<open>bst_uint\<close> before storing it there. A page owns \<open>offset\<close>, \<open>data\<close>
  and \<open>base_rowid\<close>. Row offsets, sizes and row numbers are
  \<^verbatim>\<open>size_t\<close>/\<^verbatim>\<open>bst_idx_t\<close> in the source; they are natural numbers here, and
  where the source's 64-bit arithmetic can wrap (an unsigned subtraction, an increment,
  a narrowing cast) the wrap is written out. Sums of offsets and counts are positions
  in a data vector that has been allocated, and do not wrap. Memory is not limited: an
  allocation succeeds.
\<close>

record Entry =
  index :: "32 word"
  fvalue :: f32

record SparsePage =
  offset :: "nat list"
  data :: "Entry list"
  base_rowid :: nat

datatype error =
    InfInData          \<comment> \<open>\<^verbatim>\<open>CHECK(valid) << error::InfInData()\<close>\<close>
  | KeyBelowBase       \<comment> \<open>\<^verbatim>\<open>CHECK_GE(key, builder_base_row_offset)\<close>, and the builder's own rejection\<close>
  | CheckFailed        \<comment> \<open>any other \<^verbatim>\<open>CHECK\<close> of \<^verbatim>\<open>data.cc\<close>\<close>
  | OutOfRange         \<comment> \<open>\<^verbatim>\<open>std::vector::at\<close> threw\<close>
  | Undefined          \<comment> \<open>the C++ program has no defined behaviour from here on\<close>

definition default_Entry :: Entry where
  "default_Entry = \<lparr>index = 0, fvalue = 0\<rparr>"

text \<open>
  Modelled from the spec: a page "is created empty (\<open>offset = [0]\<close>, \<open>data = []\<close>)";
  \<^verbatim>\<open>Size()\<close> is the number of local rows, one less than the number of offsets.
\<close>

definition empty_page :: SparsePage where
  "empty_page = \<lparr>offset = [0], data = [], base_rowid = 0\<rparr>"

definition Size :: "SparsePage \<Rightarrow> nat" where
  "Size P = (if offset P = [] then 0 else length (offset P) - 1)"

text \<open>
  Modelled from the spec: \<^verbatim>\<open>GetView()[i]\<close>, the span of row \<open>i\<close>: the
  \<open>offset[i+1] - offset[i]\<close> entries from position \<open>offset[i]\<close> on. (On a page whose
  offsets descend or reach beyond the data the C++ span is not defined; the properties
  below that speak of rows are meant for pages built by the operations of this file.)
\<close>

definition inst :: "SparsePage \<Rightarrow> nat \<Rightarrow> Entry list" where
  "inst P i = take (offset P ! (i + 1) - offset P ! i) (drop (offset P ! i) (data P))"

text \<open>\<^verbatim>\<open>std::vector::resize(n, d)\<close> and a \<^verbatim>\<open>memcpy\<close> of a whole vector into another.\<close>

definition resize :: "nat \<Rightarrow> 'a \<Rightarrow> 'a list \<Rightarrow> 'a list" where
  "resize n d xs = take n xs @ replicate (n - length xs) d"

definition memcpy :: "'a list \<Rightarrow> nat \<Rightarrow> 'a list \<Rightarrow> 'a list" where
  "memcpy dst pos src = take pos dst @ src @ drop (pos + length src) dst"

text \<open>Unsigned 64-bit subtraction.\<close>

definition sub64 :: "nat \<Rightarrow> nat \<Rightarrow> nat" where
  "sub64 a b = (2 ^ 64 + a - b) mod 2 ^ 64"

text \<open>
  An \<^verbatim>\<open>int\<close> or \<^verbatim>\<open>int32_t\<close> is a 32-bit word, read as a signed number by \<open>sint\<close>.
  Its conversion to \<^verbatim>\<open>size_t\<close> is modulo \<open>2\<^sup>6\<^sup>4\<close>, so a negative number becomes a
  large one; the conversion of a \<^verbatim>\<open>size_t\<close> to it keeps the low 32 bits (\<open>of_nat\<close>).
  The sum of two such numbers is the sum of the words: where it leaves the range, it
  wraps, as the addition of the machine does.
\<close>

definition to_size_t :: "32 word \<Rightarrow> nat" where
  "to_size_t x = nat (sint x mod 2 ^ 64)"

text \<open>A loop whose body can throw: the first error ends it.\<close>

fun foldM :: "('a \<Rightarrow> 's \<Rightarrow> error + 's) \<Rightarrow> 'a list \<Rightarrow> 's \<Rightarrow> error + 's" where
  "foldM f [] s = Inr s"
| "foldM f (x # xs) s = (case f x s of Inl e \<Rightarrow> Inl e | Inr s' \<Rightarrow> foldM f xs s')"

section \<open>Sort check and reindexing\<close>

text \<open>Modelled from the spec: "\<open>CmpIndex\<close> orders by column_index ascending".\<close>

definition CmpIndex :: "Entry \<Rightarrow> Entry \<Rightarrow> bool" where
  "CmpIndex a b = (index a < index b)"

text \<open>\<^verbatim>\<open>std::is_sorted(first, last, comp)\<close>: no element compares below its predecessor.\<close>

fun is_sorted :: "('a \<Rightarrow> 'a \<Rightarrow> bool) \<Rightarrow> 'a list \<Rightarrow> bool" where
  "is_sorted cmp [] = True"
| "is_sorted cmp [x] = True"
| "is_sorted cmp (x # y # zs) = (\<not> cmp y x \<and> is_sorted cmp (y # zs))"

text \<open>
  \<^verbatim>\<open>IsIndicesSorted\<close>. \<^verbatim>\<open>common::ParallelFor(n, n_threads, fn)\<close>
  (\<^verbatim>\<open>src/common/threading_utils.h\<close> is not part of the sources at hand) runs \<open>fn i\<close>
  for every \<open>i < n\<close> on a pool of \<open>n_threads\<close> threads; the parameter \<open>sched\<close> gives,
  for iteration \<open>i\<close>, the value of \<^verbatim>\<open>omp_get_thread_num()\<close> there. Each thread adds
  to its own counter only, so the iterations are run here in increasing order. The
  thread count and the counters are \<^verbatim>\<open>int32_t\<close>: the clamped thread count is
  computed in \<^verbatim>\<open>size_t\<close> and stored back into the \<^verbatim>\<open>int32_t\<close>, and
  \<^verbatim>\<open>std::accumulate\<close> adds the counters, converted to \<^verbatim>\<open>size_t\<close>, to a
  \<^verbatim>\<open>size_t\<close>.
\<close>

definition IsIndicesSorted :: "SparsePage \<Rightarrow> 32 word \<Rightarrow> (nat \<Rightarrow> nat) \<Rightarrow> bool" where
  "IsIndicesSorted P n_threads0 sched =
    (let n_threads = (of_nat (max (min (to_size_t n_threads0) (Size P)) 1) :: 32 word);
         is_sorted_tloc =
           fold (\<lambda>i tloc. tloc[sched i := tloc ! sched i +
                   (if is_sorted CmpIndex (inst P i) then 1 else 0)])
                [0..<Size P] (replicate (to_size_t n_threads) (0::32 word))
     in fold (\<lambda>c acc. (acc + to_size_t c) mod 2 ^ 64) is_sorted_tloc 0 = Size P)"

text \<open>
  \<^verbatim>\<open>Reindex\<close>: \<^verbatim>\<open>h_data[i].index += feature_offset\<close> adds a 64-bit number to a 32-bit
  field, so the sum is cut to 32 bits.
\<close>

definition Reindex :: "nat \<Rightarrow> SparsePage \<Rightarrow> SparsePage" where
  "Reindex feature_offset P =
     P\<lparr>data := map (\<lambda>e. e\<lparr>index := index e + of_nat feature_offset\<rparr>) (data P)\<rparr>"

text \<open>
  \<^verbatim>\<open>SortIndices\<close> and \<^verbatim>\<open>SortRows\<close> sort every row in place. The result of
  \<^verbatim>\<open>std::sort\<close> on entries that compare equal is not fixed by the language, so the
  sorting function (with \<^verbatim>\<open>Entry::CmpIndex\<close> for the first, \<^verbatim>\<open>Entry::CmpValue\<close> for
  the second) is a parameter; the sorted slice is written over itself. The rows do not
  overlap, so they are sorted here one after the other.
\<close>

definition sort_range :: "(Entry list \<Rightarrow> Entry list) \<Rightarrow> nat \<Rightarrow> nat \<Rightarrow> Entry list \<Rightarrow> Entry list" where
  "sort_range std_sort beg end h_data =
     (let slice = take (end - beg) (drop beg h_data)
      in take beg h_data @ std_sort slice @ drop (beg + length slice) h_data)"

definition SortIndices :: "(Entry list \<Rightarrow> Entry list) \<Rightarrow> SparsePage \<Rightarrow> SparsePage" where
  "SortIndices std_sort P =
     P\<lparr>data := fold (\<lambda>i h_data. sort_range std_sort (offset P ! i) (offset P ! (i + 1)) h_data)
                  [0..<Size P] (data P)\<rparr>"

definition SortRows :: "(Entry list \<Rightarrow> Entry list) \<Rightarrow> SparsePage \<Rightarrow> SparsePage" where
  "SortRows std_sort P =
     P\<lparr>data := fold (\<lambda>i h_data. if offset P ! i < offset P ! (i + 1)
                               then sort_range std_sort (offset P ! i) (offset P ! (i + 1)) h_data
                               else h_data)
                  [0..<Size P] (data P)\<rparr>"

section \<open>Appending and merging pages\<close>

text \<open>\<^verbatim>\<open>SparsePage::Push(const SparsePage&)\<close>.\<close>

definition Push_page :: "SparsePage \<Rightarrow> SparsePage \<Rightarrow> error + SparsePage" where
  "Push_page batch P =
    (if offset P = [] then Inl Undefined
     else
      let top = last (offset P);
          data_vec = resize (top + length (data batch)) default_Entry (data P);
          data_vec = memcpy data_vec top (data batch);
          begin = length (offset P);
          offset_vec = resize (begin + Size batch) 0 (offset P);
          offset_vec = fold (\<lambda>i ov. ov[i + begin := top + offset batch ! (i + 1)])
                         [0..<Size batch] offset_vec
      in Inr (P\<lparr>offset := offset_vec, data := data_vec\<rparr>))"

text \<open>
  \<^verbatim>\<open>SparsePage::PushCSC\<close>. The loop state is \<open>(beg, ptr, data, offset)\<close>; a
  \<^verbatim>\<open>memcpy\<close> that would leave its source or its destination is undefined.
\<close>

definition PushCSC_step ::
  "nat list \<Rightarrow> Entry list \<Rightarrow> nat list \<Rightarrow> Entry list \<Rightarrow> nat \<Rightarrow>
   nat \<times> nat \<times> Entry list \<times> nat list \<Rightarrow> error + nat \<times> nat \<times> Entry list \<times> nat list" where
  "PushCSC_step self_offset self_data other_offset other_data i st =
    (case st of (beg, ptr, dat, off) \<Rightarrow>
      if \<not> i + 1 < length self_offset then Inl OutOfRange
      else
       let self_beg = self_offset ! i;
           self_length = sub64 (self_offset ! (i + 1)) self_beg
       in if \<not> beg \<le> length dat then Inl CheckFailed
          else if \<not> (beg + self_length \<le> length dat \<and> self_beg + self_length \<le> length self_data)
          then Inl Undefined
          else
           let dat = memcpy dat beg (take self_length (drop self_beg self_data));
               beg = beg + self_length
           in if \<not> i + 1 < length other_offset then Inl OutOfRange
              else
               let other_beg = other_offset ! i;
                   other_length = sub64 (other_offset ! (i + 1)) other_beg
               in if \<not> beg \<le> length dat then Inl CheckFailed
                  else if \<not> (beg + other_length \<le> length dat \<and>
                             other_beg + other_length \<le> length other_data)
                  then Inl Undefined
                  else
                   let dat = memcpy dat beg (take other_length (drop other_beg other_data));
                       beg = beg + other_length
                   in if \<not> ptr < length off then Inl CheckFailed
                      else Inr (beg, ptr + 1, dat, off[ptr := beg]))"

definition PushCSC :: "SparsePage \<Rightarrow> SparsePage \<Rightarrow> error + SparsePage" where
  "PushCSC batch P =
    (let self_data = data P; self_offset = offset P;
         other_data = data batch; other_offset = offset batch
     in if other_data = [] then Inr (P\<lparr>offset := other_offset\<rparr>)
        else if self_data \<noteq> [] \<and> length self_offset \<noteq> length other_offset then Inl CheckFailed
        else if self_data = [] then Inr (P\<lparr>data := other_data, offset := other_offset\<rparr>)
        else if other_offset = [] then Inl Undefined
        else
         let offset0 = (replicate (length other_offset) 0)[0 := 0];
             data0 = replicate (length self_data + length other_data) default_Entry;
             n_features = length other_offset - 1
         in case foldM (PushCSC_step self_offset self_data other_offset other_data)
                   [0..<n_features] (0, 1, data0, offset0) of
              Inl e \<Rightarrow> Inl e
            | Inr (beg, ptr, dat, off) \<Rightarrow> Inr (P\<lparr>data := dat, offset := off\<rparr>))"

section \<open>The parallel group builder\<close>

text \<open>
  Modelled from the spec: \<^verbatim>\<open>common::ParallelGroupBuilder\<close> (\<^verbatim>\<open>src/common/group_data.h\<close>
  is not part of the sources at hand). The builder works on the page's own offset and
  data vectors and keeps one table row per thread: after \<^verbatim>\<open>InitBudget\<close> and during the
  count pass, \<open>thread_rptr ! t ! g\<close> is the number of records thread \<open>t\<close> has
  budgeted for group \<open>base_row_offset + g\<close>; after \<^verbatim>\<open>InitStorage\<close> it is the write
  cursor of thread \<open>t\<close> in that group. A thread's row grows when a group beyond its
  end is budgeted: the caller in \<^verbatim>\<open>data.cc\<close> passes an estimate that "is not required
  to be exact but prevents unnecessary resizing".
\<close>

record ParallelGroupBuilder =
  rptr :: "nat list"
  gdata :: "Entry list"
  base_row_offset :: nat
  thread_rptr :: "nat list list"

definition new_builder :: "nat list \<Rightarrow> Entry list \<Rightarrow> nat \<Rightarrow> ParallelGroupBuilder" where
  "new_builder p_rptr p_data base =
     \<lparr>rptr = p_rptr, gdata = p_data, base_row_offset = base, thread_rptr = []\<rparr>"

text \<open>
  Modelled from the spec: \<^verbatim>\<open>InitBudget(num_groups, num_threads)\<close> "allocates the
  per-thread-per-group counter table, zero-initialized".
\<close>

definition InitBudget :: "nat \<Rightarrow> nat \<Rightarrow> ParallelGroupBuilder \<Rightarrow> ParallelGroupBuilder" where
  "InitBudget max_key nthread b = b\<lparr>thread_rptr := replicate nthread (replicate max_key 0)\<rparr>"

text \<open>
  Modelled from the spec: \<^verbatim>\<open>AddBudget(group_id, thread_id)\<close> "increments
  \<open>budget[thread_id][group_id]\<close>"; "group ids below \<open>base_row_offset\<close> are rejected".
  The row of the thread grows, filled with zeros, when the group lies beyond its end.
\<close>

definition AddBudget :: "nat \<Rightarrow> nat \<Rightarrow> ParallelGroupBuilder \<Rightarrow> error + ParallelGroupBuilder" where
  "AddBudget key threadid b =
    (if key < base_row_offset b then Inl KeyBelowBase
     else if \<not> threadid < length (thread_rptr b) then Inl Undefined
     else
      let trptr = thread_rptr b ! threadid;
          offset_key = key - base_row_offset b;
          trptr = (if length trptr < offset_key + 1 then resize (offset_key + 1) 0 trptr
                   else trptr)
      in Inr (b\<lparr>thread_rptr :=
                 (thread_rptr b)[threadid := trptr[offset_key := trptr ! offset_key + 1]]\<rparr>))"

text \<open>
  Modelled from the spec: the count of thread \<open>t\<close> for group \<open>g\<close> in a table, the
  number of groups, and the sums \<^verbatim>\<open>InitStorage\<close> takes: "for each group, the total
  count across all threads", the prefix sum of the totals on top of the last offset,
  and the write cursor of a thread in a group.
\<close>

definition budget :: "nat list list \<Rightarrow> nat \<Rightarrow> nat \<Rightarrow> nat" where
  "budget tab t g = (if t < length tab \<and> g < length (tab ! t) then tab ! t ! g else 0)"

definition ngroups :: "nat list list \<Rightarrow> nat" where
  "ngroups tab = fold max (map length tab) 0"

definition group_total :: "nat list list \<Rightarrow> nat \<Rightarrow> nat" where
  "group_total tab g = sum_list (map (\<lambda>t. budget tab t g) [0..<length tab])"

definition group_start :: "nat list list \<Rightarrow> nat \<Rightarrow> nat \<Rightarrow> nat" where
  "group_start tab tp g = tp + sum_list (map (group_total tab) [0..<g])"

definition cursor :: "nat list list \<Rightarrow> nat \<Rightarrow> nat \<Rightarrow> nat \<Rightarrow> nat" where
  "cursor tab tp t g = group_start tab tp g + sum_list (map (\<lambda>t'. budget tab t' g) [0..<t])"

text \<open>
  Modelled from the spec: \<^verbatim>\<open>InitStorage()\<close> "computes, for each group, the total count
  across all threads, turns these totals into a prefix sum appended onto the existing
  offset sequence, resizes data to the new total size, and derives a
  per-thread-per-group write cursor (the starting position for thread \<open>t\<close>'s
  contribution to group \<open>g\<close> equals the group's new base offset plus the sum of counts
  from threads \<open>0..t-1\<close> for that group)".
\<close>

definition InitStorage :: "ParallelGroupBuilder \<Rightarrow> ParallelGroupBuilder" where
  "InitStorage b =
    (let tab = thread_rptr b;
         tp = (if rptr b = [] then 0 else last (rptr b));
         rptr' = rptr b @ map (\<lambda>g. group_start tab tp (Suc g)) [0..<ngroups tab]
     in b\<lparr>rptr := rptr',
          gdata := resize (if rptr' = [] then 0 else last rptr') default_Entry (gdata b),
          thread_rptr :=
            map (\<lambda>t. map (\<lambda>g. cursor tab tp t g) [0..<length (tab ! t)]) [0..<length tab]\<rparr>)"

text \<open>
  Modelled from the spec: \<^verbatim>\<open>Push(group_id, entry, thread_id)\<close> "writes \<open>entry\<close> at the
  current write cursor for \<open>(thread_id, group_id)\<close>, then advances that cursor by one".
  There is no bounds check in the builder; a write with no cursor or beyond the storage
  is undefined.
\<close>

definition Push :: "nat \<Rightarrow> Entry \<Rightarrow> nat \<Rightarrow> ParallelGroupBuilder \<Rightarrow> error + ParallelGroupBuilder" where
  "Push key v threadid b =
    (if key < base_row_offset b then Inl Undefined
     else if \<not> threadid < length (thread_rptr b) then Inl Undefined
     else
      let trptr = thread_rptr b ! threadid;
          offset_key = key - base_row_offset b
      in if \<not> offset_key < length trptr then Inl Undefined
         else
          let rp = trptr ! offset_key
          in if \<not> rp < length (gdata b) then Inl Undefined
             else Inr (b\<lparr>gdata := (gdata b)[rp := v],
                        thread_rptr := (thread_rptr b)[threadid := trptr[offset_key := rp + 1]]\<rparr>))"

section \<open>Appending an adapter batch\<close>

text \<open>
  Modelled from the spec: the adapter batch (\<^verbatim>\<open>src/data/adapter.h\<close> is not part of the
  sources at hand): "a batch exposing \<open>Size()\<close> lines and, per line, a lazy sequence of
  \<open>(row_idx, column_idx, value)\<close> tuples", with the compile-time tag
  \<^verbatim>\<open>kIsRowMajor\<close>. The two indices are 64-bit numbers, kept as natural numbers.
\<close>

record COOTuple =
  row_idx :: nat
  column_idx :: nat
  cvalue :: f32

record AdapterBatch =
  lines :: "COOTuple list list"
  kIsRowMajor :: bool

text \<open>
  Modelled from the spec: the validity filter \<^verbatim>\<open>IsValidFunctor\<close> (also in
  \<^verbatim>\<open>adapter.h\<close>): "value is not NaN and not equal to \<open>missing\<close>".
\<close>

definition IsValidFunctor :: "f32 \<Rightarrow> COOTuple \<Rightarrow> bool" where
  "IsValidFunctor missing e = (\<not> (CheckNAN (cvalue e) \<or> float_eq (cvalue e) missing))"

text \<open>The lines of thread \<open>tid\<close>: \<open>begin\<close> to \<open>end\<close> of both passes.\<close>

definition thread_lines :: "nat \<Rightarrow> nat \<Rightarrow> nat \<Rightarrow> nat \<Rightarrow> nat list" where
  "thread_lines batch_size nthread thread_size tid =
    (let begin = tid * thread_size;
         end = (if tid \<noteq> nthread - 1 then (tid + 1) * thread_size else batch_size)
     in [begin..<end])"

text \<open>
  The body of the first pass for one element. The state is the \<^verbatim>\<open>valid\<close> flag, the
  vector of per-thread column maxima and the builder.
\<close>

definition first_pass_element ::
  "f32 \<Rightarrow> nat \<Rightarrow> nat \<Rightarrow> nat \<Rightarrow> COOTuple \<Rightarrow>
   bool \<times> nat list \<times> ParallelGroupBuilder \<Rightarrow> error + bool \<times> nat list \<times> ParallelGroupBuilder" where
  "first_pass_element missing base_rowid0 builder_base_row_offset tid element st =
    (case st of (valid, max_columns_vector, builder) \<Rightarrow>
      let valid = (if \<not> isinf missing \<and> isinf (cvalue element) then False else valid);
          key = sub64 (row_idx element) base_rowid0
      in if \<not> key \<ge> builder_base_row_offset then Inl KeyBelowBase
         else
          let max_columns_vector = max_columns_vector[tid :=
                max (max_columns_vector ! tid) ((column_idx element + 1) mod 2 ^ 64)]
          in if \<not> CheckNAN (cvalue element) \<and> \<not> float_eq (cvalue element) missing
             then (case AddBudget key tid builder of
                     Inl e \<Rightarrow> Inl e
                   | Inr builder \<Rightarrow> Inr (valid, max_columns_vector, builder))
             else Inr (valid, max_columns_vector, builder))"

definition second_pass_element ::
  "f32 \<Rightarrow> nat \<Rightarrow> nat \<Rightarrow> COOTuple \<Rightarrow> ParallelGroupBuilder \<Rightarrow> error + ParallelGroupBuilder" where
  "second_pass_element missing base_rowid0 tid element builder =
    (let key = sub64 (row_idx element) base_rowid0
     in if IsValidFunctor missing element
        then Push key \<lparr>index = of_nat (column_idx element), fvalue = cvalue element\<rparr> tid builder
        else Inr builder)"

text \<open>
  \<^verbatim>\<open>SparsePage::Push(AdapterBatchT const&, float, int32_t)\<close>. Each thread of a parallel
  region works on its own table row, its own maximum and its own part of the storage,
  and an exception in any thread is rethrown after the region; so the threads are run
  here one after the other. A thread count of zero divides by zero.
\<close>

definition Push_batch ::
  "AdapterBatch \<Rightarrow> f32 \<Rightarrow> nat \<Rightarrow> SparsePage \<Rightarrow> error + nat \<times> SparsePage" where
  "Push_batch batch missing nthread0 P =
    (let nthread = (if kIsRowMajor batch then nthread0 else 1);
         builder_base_row_offset = Size P;
         builder = new_builder (offset P) (data P) builder_base_row_offset;
         expected_rows =
           (if length (lines batch) > 0 \<and> length (last (lines batch)) > 0
            then sub64 (row_idx (last (last (lines batch)))) (base_rowid P) else 0);
         batch_size = length (lines batch);
         expected_rows = (if kIsRowMajor batch then batch_size else expected_rows);
         max_columns = 0
     in if batch_size = 0 then Inr (max_columns, P)
        else if nthread = 0 then Inl Undefined
        else
         let thread_size = batch_size div nthread;
             builder = InitBudget expected_rows nthread builder;
             max_columns_vector = replicate nthread 0
         in case foldM (\<lambda>tid. foldM (\<lambda>i. foldM
                          (first_pass_element missing (base_rowid P) builder_base_row_offset tid)
                          (lines batch ! i))
                        (thread_lines batch_size nthread thread_size tid))
                   [0..<nthread] (True, max_columns_vector, builder) of
              Inl e \<Rightarrow> Inl e
            | Inr (valid, max_columns_vector, builder) \<Rightarrow>
               if \<not> valid then Inl InfInData
               else
                let max_columns = fold (\<lambda>m acc. max acc m) max_columns_vector max_columns;
                    builder = InitStorage builder
                in case foldM (\<lambda>tid. foldM (\<lambda>i. foldM
                                 (second_pass_element missing (base_rowid P) tid)
                                 (lines batch ! i))
                               (thread_lines batch_size nthread thread_size tid))
                          [0..<nthread] builder of
                     Inl e \<Rightarrow> Inl e
                   | Inr builder \<Rightarrow>
                       Inr (max_columns, P\<lparr>offset := rptr builder, data := gdata builder\<rparr>))"

section \<open>Transposition\<close>

text \<open>
  \<^verbatim>\<open>SparsePage::GetTranspose\<close>; \<open>sched i\<close> is the thread that runs iteration \<open>i\<close>
  of the two \<^verbatim>\<open>ParallelFor\<close> loops (the placement pass has to push with the thread
  that budgeted, so both loops distribute the rows in the same way). A thread works on
  its own table row and on its own part of the storage, and runs its iterations in
  increasing order; so the iterations are run here one after the other. The number of
  columns is an \<^verbatim>\<open>int\<close>: it is converted to \<^verbatim>\<open>size_t\<close> for the builder, and
  \<^verbatim>\<open>num_columns + 1\<close> is computed in \<^verbatim>\<open>int\<close> and then converted for the resize
  and for the comparison with the number of offsets.
\<close>

definition GetTranspose ::
  "32 word \<Rightarrow> nat \<Rightarrow> (nat \<Rightarrow> nat) \<Rightarrow> SparsePage \<Rightarrow> error + SparsePage" where
  "GetTranspose num_columns n_threads sched P =
    (let transpose = empty_page;
         builder = new_builder (offset transpose) (data transpose) 0;
         builder = InitBudget (to_size_t num_columns) n_threads builder;
         batch_size = Size P
     in case foldM (\<lambda>i. foldM (\<lambda>entry. AddBudget (unat (index entry)) (sched i)) (inst P i))
               [0..<batch_size] builder of
          Inl e \<Rightarrow> Inl e
        | Inr builder \<Rightarrow>
           let builder = InitStorage builder
           in case foldM (\<lambda>i. foldM (\<lambda>entry. Push (unat (index entry))
                              \<lparr>index = of_nat (base_rowid P + i), fvalue = fvalue entry\<rparr> (sched i))
                            (inst P i))
                     [0..<batch_size] builder of
                Inl e \<Rightarrow> Inl e
              | Inr builder \<Rightarrow>
                 let transpose = transpose\<lparr>offset := rptr builder, data := gdata builder\<rparr>;
                     transpose = (if data P = []
                                  then transpose\<lparr>offset := replicate (to_size_t (num_columns + 1)) 0\<rparr>
                                  else transpose)
                 in if length (offset transpose) \<noteq> to_size_t (num_columns + 1)
                    then Inl CheckFailed
                    else Inr transpose)"

section \<open>Notions used by the properties\<close>

text \<open>
  The shape invariant of a page: the data vector is as long as the last offset says, and
  there is one offset more than there are rows.
\<close>

definition shape_invariant :: "SparsePage \<Rightarrow> bool" where
  "shape_invariant P =
     (offset P \<noteq> [] \<and> length (data P) = last (offset P) \<and> length (offset P) = Size P + 1)"

text \<open>
  A well-formed page, as the data model has it: the offsets start at 0, do not descend
  and end at the size of the data, which fits 64 bits.
\<close>

definition well_formed :: "SparsePage \<Rightarrow> bool" where
  "well_formed P =
     (offset P \<noteq> [] \<and> hd (offset P) = 0 \<and> sorted (offset P) \<and>
      last (offset P) = length (data P) \<and> length (data P) < 2 ^ 64)"

text \<open>Column \<open>j\<close> of the CSC merge of \<open>B\<close> into \<open>P\<close>.\<close>

definition merged_column :: "SparsePage \<Rightarrow> SparsePage \<Rightarrow> nat \<Rightarrow> Entry list" where
  "merged_column P B j = inst P j @ inst B j"

text \<open>
  The records of a builder run, in the order in which the passes meet them: the thread,
  the group relative to the builder's base, and the entry to place.
\<close>

definition ents :: "(nat \<times> nat \<times> Entry) list \<Rightarrow> nat \<Rightarrow> nat \<Rightarrow> Entry list" where
  "ents recs t g = map (\<lambda>r. snd (snd r)) (filter (\<lambda>r. fst r = t \<and> fst (snd r) = g) recs)"

text \<open>What \<^verbatim>\<open>AddBudget\<close> does to one table row, and to the table for one record.\<close>

definition bump :: "nat \<Rightarrow> nat list \<Rightarrow> nat list" where
  "bump k row =
     (let row' = (if length row < k + 1 then resize (k + 1) 0 row else row)
      in row'[k := row' ! k + 1])"

definition count_rec :: "nat \<times> nat \<times> Entry \<Rightarrow> nat list list \<Rightarrow> nat list list" where
  "count_rec r tab = tab[fst r := bump (fst (snd r)) (tab ! fst r)]"

text \<open>The two builder calls for one record.\<close>

definition budget_rec ::
  "nat \<Rightarrow> nat \<times> nat \<times> Entry \<Rightarrow> ParallelGroupBuilder \<Rightarrow> error + ParallelGroupBuilder" where
  "budget_rec base r = AddBudget (base + fst (snd r)) (fst r)"

definition place_rec ::
  "nat \<Rightarrow> nat \<times> nat \<times> Entry \<Rightarrow> ParallelGroupBuilder \<Rightarrow> error + ParallelGroupBuilder" where
  "place_rec base r = Push (base + fst (snd r)) (snd (snd r)) (fst r)"

text \<open>
  What a group holds in the end: the entries of thread 0 for it, then those of thread 1,
  and so on, each thread's in the order of its traversal.
\<close>

definition group_block :: "(nat \<times> nat \<times> Entry) list \<Rightarrow> nat \<Rightarrow> nat \<Rightarrow> Entry list" where
  "group_block recs n g = concat (map (\<lambda>t. ents recs t g) [0..<n])"

text \<open>The page with base row id 0 whose rows are \<open>f 0\<close>, ..., \<open>f (m - 1)\<close>.\<close>

definition page_of_rows :: "(nat \<Rightarrow> Entry list) \<Rightarrow> nat \<Rightarrow> SparsePage" where
  "page_of_rows f m =
     \<lparr>offset = map (\<lambda>g. length (concat (map f [0..<g]))) [0..<Suc m],
      data = concat (map f [0..<m]), base_rowid = 0\<rparr>"

text \<open>The records of a transposition: one for every entry of every row.\<close>

definition transpose_recs :: "SparsePage \<Rightarrow> (nat \<Rightarrow> nat) \<Rightarrow> (nat \<times> nat \<times> Entry) list" where
  "transpose_recs P sched =
     concat (map (\<lambda>i. map (\<lambda>entry. (sched i, unat (index entry),
                               \<lparr>index = of_nat (base_rowid P + i), fvalue = fvalue entry\<rparr>))
                         (inst P i))
                 [0..<Size P])"

text \<open>
  The content of a page: the multiset of its (local row, index, value) triples.
\<close>

definition triples :: "SparsePage \<Rightarrow> (nat \<times> 32 word \<times> f32) multiset" where
  "triples P = mset (concat (map (\<lambda>i. map (\<lambda>e. (i, index e, fvalue e)) (inst P i)) [0..<Size P]))"

text \<open>The last offset of a vector of offsets, 0 if there is none.\<close>

definition last_or_0 :: "nat list \<Rightarrow> nat" where
  "last_or_0 xs = (if xs = [] then 0 else last xs)"

text \<open>The maximum of a list of natural numbers, 0 for the empty list.\<close>

definition lmax :: "nat list \<Rightarrow> nat" where
  "lmax xs = fold max xs 0"

text \<open>
  The elements of a batch in the order in which the threads, one after the other, meet
  them in either pass, each with the thread that meets it.
\<close>

definition batch_elems :: "AdapterBatch \<Rightarrow> nat \<Rightarrow> (nat \<times> COOTuple) list" where
  "batch_elems batch nthread =
     concat (map (\<lambda>tid. concat (map (\<lambda>i. map (Pair tid) (lines batch ! i))
                    (thread_lines (length (lines batch)) nthread
                       (length (lines batch) div nthread) tid)))
                 [0..<nthread])"

text \<open>The key of an element (its row, relative to the page) and the entry made of it.\<close>

definition elem_key :: "SparsePage \<Rightarrow> COOTuple \<Rightarrow> nat" where
  "elem_key P el = sub64 (row_idx el) (base_rowid P)"

definition elem_entry :: "COOTuple \<Rightarrow> Entry" where
  "elem_entry el = \<lparr>index = of_nat (column_idx el), fvalue = cvalue el\<rparr>"

text \<open>The builder records of a batch: one for every element that passes the validity filter.\<close>

definition batch_recs :: "f32 \<Rightarrow> SparsePage \<Rightarrow> (nat \<times> COOTuple) list \<Rightarrow> (nat \<times> nat \<times> Entry) list" where
  "batch_recs missing P xs =
     map (\<lambda>p. (fst p, elem_key P (snd p) - Size P, elem_entry (snd p)))
         (filter (\<lambda>p. IsValidFunctor missing (snd p)) xs)"

text \<open>What the first pass does to the vector of column maxima for one element.\<close>

definition max_columns_step :: "nat \<times> COOTuple \<Rightarrow> nat list \<Rightarrow> nat list" where
  "max_columns_step p mv = mv[fst p := max (mv ! fst p) ((column_idx (snd p) + 1) mod 2 ^ 64)]"

text \<open>
  The result of appending a batch, said without threads: the number of rows the builder
  is told to expect; the entries of the new row \<open>g\<close>, which are the valid elements with
  that row, in the order of the batch; the number of new rows; the returned column
  count; the page after the call; and the condition of the admissibility error.
\<close>

definition expected_rows :: "SparsePage \<Rightarrow> AdapterBatch \<Rightarrow> nat" where
  "expected_rows P batch =
     (if kIsRowMajor batch then length (lines batch)
      else if length (lines batch) > 0 \<and> length (last (lines batch)) > 0
           then sub64 (row_idx (last (last (lines batch)))) (base_rowid P) else 0)"

definition batch_row :: "f32 \<Rightarrow> SparsePage \<Rightarrow> AdapterBatch \<Rightarrow> nat \<Rightarrow> Entry list" where
  "batch_row missing P batch g =
     map elem_entry (filter (\<lambda>el. IsValidFunctor missing el \<and> elem_key P el - Size P = g)
                            (concat (lines batch)))"

definition batch_nrows :: "f32 \<Rightarrow> SparsePage \<Rightarrow> AdapterBatch \<Rightarrow> nat" where
  "batch_nrows missing P batch =
     max (expected_rows P batch)
         (lmax (map (\<lambda>el. elem_key P el - Size P + 1)
                    (filter (IsValidFunctor missing) (concat (lines batch)))))"

definition batch_max_columns :: "AdapterBatch \<Rightarrow> nat" where
  "batch_max_columns batch = lmax (map (\<lambda>el. (column_idx el + 1) mod 2 ^ 64) (concat (lines batch)))"

definition pushed_page :: "f32 \<Rightarrow> SparsePage \<Rightarrow> AdapterBatch \<Rightarrow> SparsePage" where
  "pushed_page missing P batch =
     P\<lparr>offset := offset P @
          map (\<lambda>g. last_or_0 (offset P)
                    + length (concat (map (batch_row missing P batch) [0..<Suc g])))
              [0..<batch_nrows missing P batch],
       data := resize (last_or_0 (offset P)) default_Entry (data P) @
               concat (map (batch_row missing P batch) [0..<batch_nrows missing P batch])\<rparr>"

text \<open>
  The first pass of the append over the slices of all threads, as \<open>Push_batch\<close> runs
  it on a batch with lines: it ends with the \<^verbatim>\<open>valid\<close> flag, the column maxima of the
  threads and the builder that holds the budgets.
\<close>

definition first_pass ::
  "AdapterBatch \<Rightarrow> f32 \<Rightarrow> nat \<Rightarrow> SparsePage \<Rightarrow> error + bool \<times> nat list \<times> ParallelGroupBuilder" where
  "first_pass batch missing nthread0 P =
    (let nthread = (if kIsRowMajor batch then nthread0 else 1);
         batch_size = length (lines batch)
     in foldM (\<lambda>tid. foldM (\<lambda>i. foldM
                  (first_pass_element missing (base_rowid P) (Size P) tid) (lines batch ! i))
                (thread_lines batch_size nthread (batch_size div nthread) tid))
          [0..<nthread]
          (True, replicate nthread 0,
           InitBudget (expected_rows P batch) nthread (new_builder (offset P) (data P) (Size P))))"

text \<open>
  A finite value, in the sense of the wording of the properties: neither an infinity nor
  a NaN.
\<close>

definition isfinite :: "f32 \<Rightarrow> bool" where
  "isfinite v = (v AND 0x7F800000 \<noteq> 0x7F800000)"

definition inf_in_data :: "f32 \<Rightarrow> AdapterBatch \<Rightarrow> bool" where
  "inf_in_data missing batch =
     (\<not> isinf missing \<and> list_ex (\<lambda>el. isinf (cvalue el)) (concat (lines batch)))"

text \<open>A page of \<open>2\<^sup>3\<^sup>1\<close> rows without entries.\<close>

definition many_rows :: SparsePage where
  "many_rows = \<lparr>offset = replicate (2 ^ 31 + 1) 0, data = [], base_rowid = 0\<rparr>"

text \<open>
  Row-major batches of one line: the values 1.0, NaN, 0.0, 0.0 at the columns 0 to 3
  of row 0; a positive infinity at column 2 of row 0; and the value 1.0 at the columns
  \<open>2\<^sup>6\<^sup>4 - 1\<close> and 5 of row 0.
\<close>

definition example_batch :: AdapterBatch where
  "example_batch =
     \<lparr>lines = [[\<lparr>row_idx = 0, column_idx = 0, cvalue = 0x3F800000\<rparr>,
                \<lparr>row_idx = 0, column_idx = 1, cvalue = 0x7FC00000\<rparr>,
                \<lparr>row_idx = 0, column_idx = 2, cvalue = 0\<rparr>,
                \<lparr>row_idx = 0, column_idx = 3, cvalue = 0\<rparr>]], kIsRowMajor = True\<rparr>"

definition inf_batch :: AdapterBatch where
  "inf_batch = \<lparr>lines = [[\<lparr>row_idx = 0, column_idx = 2, cvalue = 0x7F800000\<rparr>]], kIsRowMajor = True\<rparr>"

definition wrap_batch :: AdapterBatch where
  "wrap_batch =
     \<lparr>lines = [[\<lparr>row_idx = 0, column_idx = 18446744073709551615, cvalue = 0x3F800000\<rparr>,
                \<lparr>row_idx = 0, column_idx = 5, cvalue = 0x3F800000\<rparr>]], kIsRowMajor = True\<rparr>"

section \<open>Properties of the sort check, of reindexing and of appending a page\<close>

lemma fold_tloc_sum:
  "\<forall>i\<in>set js. sched i < length tloc \<Longrightarrow>
   sum_list (fold (\<lambda>i tl. tl[sched i := tl ! sched i + f i]) js (tloc::nat list))
     = sum_list tloc + sum_list (map f js)"
proof (induction js arbitrary: tloc)
  case Nil
  then show ?case by simp
next
  case (Cons j js)
  let ?t = "tloc[sched j := tloc ! sched j + f j]"
  have lt: "sched j < length tloc" using Cons.prems by simp
  have "tloc ! sched j \<le> sum_list tloc"
    using lt by (simp add: member_le_sum_list)
  then have s: "sum_list ?t = sum_list tloc + f j"
    using lt by (simp add: sum_list_update)
  have "\<forall>i\<in>set js. sched i < length ?t" using Cons.prems by simp
  from Cons.IH [OF this] s show ?case by simp
qed

lemma is_sorted_CmpIndex: "is_sorted CmpIndex xs = sorted (map index xs)"
proof (induction "CmpIndex" xs rule: is_sorted.induct)
  case (3 x y zs)
  have h: "sorted (map index (x # y # zs)) = (index x \<le> index y \<and> sorted (map index (y # zs)))"
    by (simp only: list.map sorted2)
  show ?case unfolding h using 3 by (simp add: CmpIndex_def not_less)
qed simp_all

lemma count_true_le: "sum_list (map (\<lambda>i. if p i then 1 else 0) xs) \<le> length xs"
  by (induction xs) auto

lemma count_true_all:
  "sum_list (map (\<lambda>i. if p i then 1 else (0::nat)) xs) = length xs \<longleftrightarrow> (\<forall>x\<in>set xs. p x)"
proof (induction xs)
  case Nil
  then show ?case by simp
next
  case (Cons x xs)
  have "sum_list (map (\<lambda>i. if p i then 1 else (0::nat)) xs) \<le> length xs"
    by (rule count_true_le)
  with Cons show ?case by auto
qed

lemma sint_of_nat_small:
  assumes "m < 2 ^ 31"
  shows "sint (of_nat m :: 32 word) = int m"
proof -
  have "sint (of_nat m :: 32 word) = (int m + 2 ^ 31) mod 2 ^ 32 - 2 ^ 31"
    using int_word_sint [where x = "int m" and 'a = 32] by simp
  moreover have "int m < 2 ^ 31" using assms by (simp flip: of_nat_less_iff)
  ultimately show ?thesis by simp
qed

lemma to_size_t_of_nat: "m < 2 ^ 31 \<Longrightarrow> to_size_t (of_nat m) = m"
  by (simp add: to_size_t_def sint_of_nat_small)

lemma tloc_words:
  "\<forall>i\<in>set js. sched i < length cs \<Longrightarrow>
   fold (\<lambda>i tloc. tloc[sched i := tloc ! sched i + (if p i then 1 else 0)]) js
        (map of_nat cs :: 32 word list)
   = map of_nat (fold (\<lambda>i tloc. tloc[sched i := tloc ! sched i + (if p i then 1 else 0)]) js cs)"
proof (induction js arbitrary: cs)
  case Nil
  then show ?case by simp
next
  case (Cons j js)
  let ?t = "cs[sched j := cs ! sched j + (if p j then 1 else 0)]"
  have lt: "sched j < length cs" using Cons.prems by simp
  have h: "(map of_nat cs :: 32 word list)[sched j := map of_nat cs ! sched j + (if p j then 1 else 0)]
           = map of_nat ?t"
    using lt by (simp add: map_update)
  have "\<forall>i\<in>set js. sched i < length ?t" using Cons.prems by simp
  from Cons.IH [OF this] h show ?case by simp
qed

lemma length_fold_tloc:
  "length (fold (\<lambda>i tloc. tloc[sched i := g i tloc]) js cs) = length cs"
  by (induction js arbitrary: cs) auto

lemma accumulate_small:
  "\<forall>x\<in>set xs. x < 2 ^ 31 \<Longrightarrow> a + sum_list xs < 2 ^ 64 \<Longrightarrow>
   fold (\<lambda>c acc. (acc + to_size_t c) mod 2 ^ 64) (map of_nat xs) a = a + sum_list xs"
proof (induction xs arbitrary: a)
  case Nil
  then show ?case by simp
next
  case (Cons x xs)
  have x: "to_size_t (of_nat x) = x" using Cons.prems(1) by (simp add: to_size_t_of_nat)
  have "(a + x) mod 2 ^ 64 = a + x" using Cons.prems(2) by simp
  moreover have "(a + x) + sum_list xs < 2 ^ 64" using Cons.prems(2) by simp
  ultimately show ?case using Cons.IH [of "a + x"] Cons.prems(1) x by simp
qed


lemma Size_many_rows: "Size many_rows = 2 ^ 31"
  by (simp add: Size_def many_rows_def)

lemma inst_many_rows: "inst many_rows i = []"
  by (simp add: inst_def many_rows_def)

lemma singleton_sum: "length cs = 1 \<Longrightarrow> cs = [sum_list cs]" for cs :: "nat list"
  by (cases cs) auto

text \<open>
  Claim C9, as amended. For every page with fewer than \<open>2\<^sup>3\<^sup>1\<close> rows and every thread
  count, \<^verbatim>\<open>IsIndicesSorted\<close> returns true if and only if the entries of every row are
  in ascending order of their column index; one unsorted row makes it false. Every
  iteration runs on one of the threads of the parallel region, whose number is the
  clamped thread count.
\<close>

theorem IsIndicesSorted_iff:
  assumes rows: "Size P < 2 ^ 31"
      and sched: "\<forall>i<Size P. sched i < max (min (to_size_t n_threads) (Size P)) 1"
  shows "IsIndicesSorted P n_threads sched \<longleftrightarrow> (\<forall>i<Size P. sorted (map index (inst P i)))"
proof -
  let ?n = "max (min (to_size_t n_threads) (Size P)) 1"
  let ?p = "\<lambda>i. is_sorted CmpIndex (inst P i)"
  let ?f = "\<lambda>i. if ?p i then 1 else (0::nat)"
  let ?cs = "fold (\<lambda>i tloc. tloc[sched i := tloc ! sched i + ?f i]) [0..<Size P] (replicate ?n (0::nat))"
  have n: "?n < 2 ^ 31" using rows by simp
  have team: "to_size_t (of_nat ?n) = ?n" by (rule to_size_t_of_nat [OF n])
  have b: "\<forall>i\<in>set [0..<Size P]. sched i < length (replicate ?n (0::nat))"
    using sched by simp
  have words: "fold (\<lambda>i tloc. tloc[sched i := tloc ! sched i + (if ?p i then 1 else 0)]) [0..<Size P]
                  (replicate ?n (0::32 word)) = map of_nat ?cs"
    using tloc_words [OF b, of ?p] by simp
  have sum: "sum_list ?cs = sum_list (map ?f [0..<Size P])"
    using fold_tloc_sum [OF b, of ?f] by simp
  have le: "sum_list (map ?f [0..<Size P]) \<le> Size P"
    using count_true_le [of ?p "[0..<Size P]"] by simp
  have small: "\<forall>x\<in>set ?cs. x < 2 ^ 31"
  proof
    fix x assume "x \<in> set ?cs"
    then have "x \<le> sum_list ?cs" by (simp add: member_le_sum_list)
    then show "x < 2 ^ 31" using sum le rows by simp
  qed
  have "0 + sum_list ?cs < (2::nat) ^ 64"
  proof -
    have "(2::nat) ^ 31 \<le> 2 ^ 64" by (rule power_increasing) simp_all
    then show ?thesis using sum le rows by simp
  qed
  from accumulate_small [OF small this]
  have acc: "fold (\<lambda>c acc. (acc + to_size_t c) mod 2 ^ 64) (map of_nat ?cs) 0 = sum_list ?cs"
    by simp
  have "IsIndicesSorted P n_threads sched \<longleftrightarrow> sum_list ?cs = Size P"
    unfolding IsIndicesSorted_def Let_def team words acc ..
  also have "\<dots> \<longleftrightarrow> sum_list (map ?f [0..<Size P]) = length [0..<Size P]"
    unfolding sum by simp
  also have "\<dots> \<longleftrightarrow> (\<forall>i\<in>set [0..<Size P]. ?p i)"
    by (rule count_true_all)
  finally show ?thesis by (auto simp: is_sorted_CmpIndex)
qed


theorem IsIndicesSorted_iff_witness:
  "Size \<lparr>offset = [0, 2, 3], data = [\<lparr>index = 2, fvalue = 1\<rparr>, \<lparr>index = 0, fvalue = 2\<rparr>,
        \<lparr>index = 1, fvalue = 3\<rparr>], base_rowid = 0\<rparr> = 2 \<and>
   (0::nat) mod 2 < max (min (to_size_t 2) 2) 1 \<and> (1::nat) mod 2 < max (min (to_size_t 2) 2) 1 \<and>
   \<not> sorted (map index (inst \<lparr>offset = [0, 2, 3], data = [\<lparr>index = 2, fvalue = 1\<rparr>,
        \<lparr>index = 0, fvalue = 2\<rparr>, \<lparr>index = 1, fvalue = 3\<rparr>], base_rowid = 0\<rparr> 0)) \<and>
   \<not> IsIndicesSorted \<lparr>offset = [0, 2, 3], data = [\<lparr>index = 2, fvalue = 1\<rparr>,
        \<lparr>index = 0, fvalue = 2\<rparr>, \<lparr>index = 1, fvalue = 3\<rparr>], base_rowid = 0\<rparr> 2 (\<lambda>i. i mod 2)"
proof -
  let ?P = "\<lparr>offset = [0, 2, 3], data = [\<lparr>index = 2, fvalue = 1\<rparr>, \<lparr>index = 0, fvalue = 2\<rparr>,
        \<lparr>index = 1, fvalue = 3\<rparr>], base_rowid = 0\<rparr>"
  have s: "Size ?P = 2" by (simp add: Size_def)
  have t: "to_size_t 2 = 2" by (simp add: to_size_t_def)
  have r: "Size ?P < 2 ^ 31" by (simp add: s)
  have h: "\<forall>i<Size ?P. (\<lambda>i. i mod 2) i < max (min (to_size_t 2) (Size ?P)) 1" by (simp add: s t)
  have n: "\<not> sorted (map index (inst ?P 0))" by (simp add: inst_def)
  have "\<not> (\<forall>i<Size ?P. sorted (map index (inst ?P i)))"
    using n s by (metis zero_less_numeral)
  then have "\<not> IsIndicesSorted ?P 2 (\<lambda>i. i mod 2)"
    using IsIndicesSorted_iff [OF r h] by blast
  then show ?thesis using s n t by simp
qed

text \<open>
  The claim as stated, for every page, fails on a page of \<open>2\<^sup>3\<^sup>1\<close> rows, all of them
  empty and so in ascending order, checked by one thread: the counter of the thread is
  an \<^verbatim>\<open>int32_t\<close> and has left its range after \<open>2\<^sup>3\<^sup>1\<close> increments, so the sum of the
  counters is not the number of rows and the result is false.
\<close>

theorem IsIndicesSorted_iff_counterexample:
  "Size many_rows = 2 ^ 31 \<and> (\<forall>i. inst many_rows i = []) \<and> sorted (map index []) \<and>
   \<not> IsIndicesSorted many_rows 1 (\<lambda>i. 0)"
proof -
  let ?S = "Size many_rows"
  let ?p = "\<lambda>i. is_sorted CmpIndex (inst many_rows i)"
  let ?f = "\<lambda>i. if ?p i then 1 else (0::nat)"
  let ?cs = "fold (\<lambda>i tloc. tloc[(\<lambda>i. 0) i := tloc ! (\<lambda>i. 0) i + ?f i]) [0..<?S] [0::nat]"
  have b: "\<forall>i\<in>set [0..<?S]. (\<lambda>i. 0::nat) i < length [0::nat]" by simp
  have words: "fold (\<lambda>i tloc. tloc[(\<lambda>i. 0) i := tloc ! (\<lambda>i. 0) i + (if ?p i then 1 else 0)]) [0..<?S]
                  (map of_nat [0::nat] :: 32 word list) = map of_nat ?cs"
    by (rule tloc_words [OF b])
  have "sum_list (map ?f [0..<?S]) = length [0..<?S]"
    unfolding count_true_all by (simp add: inst_many_rows)
  then have sum: "sum_list ?cs = ?S"
    using fold_tloc_sum [OF b, of ?f] by simp
  have "length ?cs = 1" by (simp add: length_fold_tloc)
  from singleton_sum [OF this] have cs: "?cs = [?S]" unfolding sum .
  have team: "(of_nat (max (min (to_size_t 1) ?S) 1) :: 32 word) = 1"
    by (simp add: to_size_t_def)
  have one: "replicate (to_size_t 1) (0::32 word) = map of_nat [0::nat]"
    by (simp add: to_size_t_def)
  have "IsIndicesSorted many_rows 1 (\<lambda>i. 0)
        \<longleftrightarrow> fold (\<lambda>c acc. (acc + to_size_t c) mod 2 ^ 64) (map of_nat [?S]) 0 = ?S"
    unfolding IsIndicesSorted_def Let_def team one words cs ..
  also have "\<dots> \<longleftrightarrow> False"
    unfolding Size_many_rows by (simp add: to_size_t_def)
  finally show ?thesis by (simp add: Size_many_rows inst_many_rows)
qed

text \<open>
  Claim C10. \<^verbatim>\<open>Reindex\<close> changes nothing but the column index of each entry, to which
  it adds the feature offset (in the 32 bits of the index field): the offsets, the base
  row id, the number of rows, the number of entries and every value stay as they were.
\<close>

theorem Reindex_frame:
  "offset (Reindex f P) = offset P \<and> base_rowid (Reindex f P) = base_rowid P \<and>
   Size (Reindex f P) = Size P \<and> length (data (Reindex f P)) = length (data P) \<and>
   map fvalue (data (Reindex f P)) = map fvalue (data P) \<and>
   map index (data (Reindex f P)) = map (\<lambda>e. index e + of_nat f) (data P)"
  by (simp add: Reindex_def Size_def comp_def)

lemma fold_offset_tail:
  "length ov = b + n \<Longrightarrow> k \<le> n \<Longrightarrow>
   fold (\<lambda>i ov. ov[i + b := g i]) [0..<k] ov = take b ov @ map g [0..<k] @ drop (b + k) ov"
proof (induction k)
  case 0
  then show ?case by simp
next
  case (Suc k)
  then have "fold (\<lambda>i ov. ov[i + b := g i]) [0..<Suc k] ov
     = (take b ov @ map g [0..<k] @ drop (b + k) ov)[k + b := g k]" by simp
  also have "\<dots> = take b ov @ map g [0..<k] @ (drop (b + k) ov)[0 := g k]"
    using Suc.prems by (simp add: list_update_append)
  also have "(drop (b + k) ov)[0 := g k] = g k # drop (b + Suc k) ov"
    using Suc.prems Cons_nth_drop_Suc [of "b + k" ov, symmetric] by simp
  finally show ?case by simp
qed

lemma Push_page_result:
  assumes "offset P \<noteq> []" "length (data P) = last (offset P)"
  shows "Push_page B P = Inr (P\<lparr>offset := offset P @ map (\<lambda>x. last (offset P) + x) (tl (offset B)),
                                 data := data P @ data B\<rparr>)"
proof -
  have d: "memcpy (resize (last (offset P) + length (data B)) default_Entry (data P))
             (last (offset P)) (data B) = data P @ data B"
    using assms by (simp add: memcpy_def resize_def)
  have m: "map (\<lambda>i. last (offset P) + offset B ! (i + 1)) [0..<Size B]
           = map (\<lambda>x. last (offset P) + x) (tl (offset B))"
  proof (rule nth_equalityI)
    show "length (map (\<lambda>i. last (offset P) + offset B ! (i + 1)) [0..<Size B])
          = length (map (\<lambda>x. last (offset P) + x) (tl (offset B)))"
      by (simp add: Size_def)
  next
    fix i assume "i < length (map (\<lambda>i. last (offset P) + offset B ! (i + 1)) [0..<Size B])"
    then have "i < length (tl (offset B))" by (simp add: Size_def split: if_splits)
    then show "map (\<lambda>i. last (offset P) + offset B ! (i + 1)) [0..<Size B] ! i
               = map (\<lambda>x. last (offset P) + x) (tl (offset B)) ! i"
      by (cases "offset B") (simp_all add: nth_tl Size_def)
  qed
  have "fold (\<lambda>i ov. ov[i + length (offset P) := last (offset P) + offset B ! (i + 1)])
          [0..<Size B] (resize (length (offset P) + Size B) 0 (offset P))
        = offset P @ map (\<lambda>i. last (offset P) + offset B ! (i + 1)) [0..<Size B]"
    by (subst fold_offset_tail [where n = "Size B"]) (auto simp: resize_def)
  with d m show ?thesis using assms by (simp add: Push_page_def Let_def)
qed




section \<open>The degenerate cases of the CSC merge\<close>

text \<open>
  Claim C1. After every mutating operation the shape invariant holds. The CSC merge
  does not keep it: merging a page without entries into a page that has entries
  overwrites the offsets of the latter with those of the former and leaves its data, so
  the data vector no longer ends where the last offset says. Both pages satisfy the
  invariant before the call. (The other cases of the merge and the other operations keep
  the invariant: \<open>PushCSC_shape\<close>, \<open>Push_page_shape\<close>, \<open>Push_batch_shape\<close>,
  \<open>Reindex_shape\<close>, \<open>SortIndices_shape\<close> and \<open>SortRows_shape\<close> at the end of the
  theory.)
\<close>

theorem PushCSC_empty_other_breaks_shape:
  "shape_invariant \<lparr>offset = [0, 1], data = [\<lparr>index = 0, fvalue = 0x3F800000\<rparr>], base_rowid = 0\<rparr> \<and>
   shape_invariant \<lparr>offset = [0, 0], data = [], base_rowid = 0\<rparr> \<and>
   PushCSC \<lparr>offset = [0, 0], data = [], base_rowid = 0\<rparr>
           \<lparr>offset = [0, 1], data = [\<lparr>index = 0, fvalue = 0x3F800000\<rparr>], base_rowid = 0\<rparr>
     = Inr \<lparr>offset = [0, 0], data = [\<lparr>index = 0, fvalue = 0x3F800000\<rparr>], base_rowid = 0\<rparr> \<and>
   \<not> shape_invariant \<lparr>offset = [0, 0], data = [\<lparr>index = 0, fvalue = 0x3F800000\<rparr>], base_rowid = 0\<rparr>"
  by (simp add: shape_invariant_def PushCSC_def Size_def)

text \<open>
  Claim C3. Merging a page \<open>B\<close> without entries into a CSC page \<open>P\<close> keeps the
  offsets of \<open>P\<close> unless \<open>P\<close> is empty itself. The code assigns the offsets of \<open>B\<close>
  to \<open>P\<close> whether \<open>P\<close> is empty or not: here \<open>P\<close> has two columns of one entry
  each and ends with the offsets of \<open>B\<close>, all zero.
\<close>

theorem PushCSC_empty_other_replaces_offset:
  "PushCSC \<lparr>offset = [0, 0, 0], data = [], base_rowid = 0\<rparr>
           \<lparr>offset = [0, 1, 2], data = [\<lparr>index = 0, fvalue = 0x3F800000\<rparr>, \<lparr>index = 1, fvalue = 0x40000000\<rparr>],
            base_rowid = 0\<rparr>
     = Inr \<lparr>offset = [0, 0, 0], data = [\<lparr>index = 0, fvalue = 0x3F800000\<rparr>, \<lparr>index = 1, fvalue = 0x40000000\<rparr>],
            base_rowid = 0\<rparr>"
  by (simp add: PushCSC_def)

section \<open>Appending an empty batch\<close>

text \<open>
  Claim C6. Appending an adapter batch with no lines returns 0 and leaves the page as it
  was: its offsets, its data and its base row id.
\<close>

theorem Push_batch_empty:
  "lines batch = [] \<Longrightarrow> Push_batch batch missing nthread P = Inr (0, P)"
  by (simp add: Push_batch_def Let_def)

theorem Push_batch_empty_witness:
  "lines \<lparr>lines = [], kIsRowMajor = True\<rparr> = [] \<and>
   Push_batch \<lparr>lines = [], kIsRowMajor = True\<rparr> 0 4
     \<lparr>offset = [0, 1], data = [\<lparr>index = 2, fvalue = 5\<rparr>], base_rowid = 7\<rparr>
   = Inr (0, \<lparr>offset = [0, 1], data = [\<lparr>index = 2, fvalue = 5\<rparr>], base_rowid = 7\<rparr>)"
  using Push_batch_empty [of "\<lparr>lines = [], kIsRowMajor = True\<rparr>" 0 4
     "\<lparr>offset = [0, 1], data = [\<lparr>index = 2, fvalue = 5\<rparr>], base_rowid = 7\<rparr>"]
  by simp

section \<open>Correctness of the parallel group builder\<close>

subsection \<open>Sums and concatenations over an initial segment\<close>

lemma sum_upto_mono:
  "a \<le> b \<Longrightarrow> sum_list (map f [0..<a]) \<le> sum_list (map (f::nat \<Rightarrow> nat) [0..<b])"
proof (induction b)
  case 0
  then show ?case by simp
next
  case (Suc b)
  then show ?case by (cases "a = Suc b") auto
qed

lemma sum_upto_Suc_le:
  "a < b \<Longrightarrow> sum_list (map f [0..<a]) + f a \<le> sum_list (map (f::nat \<Rightarrow> nat) [0..<b])"
  using sum_upto_mono [of "Suc a" b f] by simp

lemma length_concat_upto:
  "length (concat (map f [0..<m])) = sum_list (map (\<lambda>i. length (f i)) [0..<m])"
  by (induction m) auto

lemma concat_upto_nth:
  "i < m \<Longrightarrow> j < length (f i) \<Longrightarrow>
   concat (map f [0..<m]) ! (sum_list (map (\<lambda>i. length (f i)) [0..<i]) + j) = f i ! j"
proof (induction m)
  case 0
  then show ?case by simp
next
  case (Suc m)
  show ?case
  proof (cases "i = m")
    case True
    then show ?thesis using Suc.prems
      by (simp add: nth_append length_concat_upto)
  next
    case False
    then have im: "i < m" using Suc.prems by simp
    have "sum_list (map (\<lambda>i. length (f i)) [0..<i]) + j < length (concat (map f [0..<m]))"
      using sum_upto_Suc_le [OF im, of "\<lambda>i. length (f i)"] Suc.prems(2)
      by (simp add: length_concat_upto)
    then show ?thesis using Suc.IH [OF im Suc.prems(2)] by (simp add: nth_append)
  qed
qed

lemma concat_upto_split:
  "p < length (concat (map f [0..<m])) \<Longrightarrow>
   \<exists>i j. i < m \<and> j < length (f i) \<and> p = sum_list (map (\<lambda>i. length (f i)) [0..<i]) + j"
proof (induction m)
  case 0
  then show ?case by simp
next
  case (Suc m)
  show ?case
  proof (cases "p < length (concat (map f [0..<m]))")
    case True
    from Suc.IH [OF this] show ?thesis by (metis less_Suc_eq)
  next
    case False
    let ?s = "sum_list (map (\<lambda>i. length (f i)) [0..<m])"
    have "?s \<le> p" using False by (simp add: length_concat_upto)
    moreover have "p < ?s + length (f m)" using Suc.prems by (simp add: length_concat_upto)
    ultimately have "p - ?s < length (f m) \<and> p = ?s + (p - ?s)" by arith
    then show ?thesis by blast
  qed
qed

lemma concat_upto_slice:
  assumes "i < m"
  shows "take (length (f i)) (drop (sum_list (map (\<lambda>i. length (f i)) [0..<i])) (concat (map f [0..<m])))
         = f i"
proof -
  have "[0..<m] = [0..<i] @ i # [Suc i..<m]"
    using assms by (metis less_imp_add_positive upt_add_eq_append upt_conv_Cons le0 less_add_same_cancel1 less_or_eq_imp_le)
  then have "concat (map f [0..<m]) = concat (map f [0..<i]) @ f i @ concat (map f [Suc i..<m])"
    by simp
  then show ?thesis by (simp add: length_concat_upto)
qed

lemma length_bump: "length (bump k row) = max (length row) (k + 1)"
  by (auto simp: bump_def resize_def Let_def)

lemma nth_bump:
  "g < length (bump k row) \<Longrightarrow>
   bump k row ! g = (if g < length row then row ! g else 0) + (if g = k then 1 else 0)"
  by (auto simp: bump_def resize_def Let_def nth_append nth_list_update)

lemma length_count_rec: "length (count_rec r tab) = length tab"
  by (simp add: count_rec_def)

lemma budget_count_rec:
  "fst r < length tab \<Longrightarrow>
   budget (count_rec r tab) t g = budget tab t g + (if fst r = t \<and> fst (snd r) = g then 1 else 0)"
  by (auto simp: budget_def count_rec_def nth_list_update length_bump nth_bump)

lemma row_length_count_rec:
  "t < length tab \<Longrightarrow>
   length (count_rec r tab ! t) =
     (if fst r = t then max (length (tab ! t)) (fst (snd r) + 1) else length (tab ! t))"
  by (auto simp: count_rec_def nth_list_update length_bump)

lemma ents_Cons:
  "ents (r # recs) t g = (if fst r = t \<and> fst (snd r) = g then snd (snd r) # ents recs t g else ents recs t g)"
  by (simp add: ents_def)

lemma ents_append: "ents (xs @ ys) t g = ents xs t g @ ents ys t g"
  by (simp add: ents_def)

lemma length_fold_count: "length (fold count_rec recs tab) = length tab"
  by (induction recs arbitrary: tab) (auto simp: length_count_rec)

lemma budget_fold_count:
  "\<forall>r\<in>set recs. fst r < length tab \<Longrightarrow>
   budget (fold count_rec recs tab) t g = budget tab t g + length (ents recs t g)"
proof (induction recs arbitrary: tab)
  case Nil
  then show ?case by (simp add: ents_def)
next
  case (Cons r recs)
  have "\<forall>r\<in>set recs. fst r < length (count_rec r tab)" for r
    using Cons.prems by (simp add: length_count_rec)
  then show ?case using Cons.IH [of "count_rec r tab"] Cons.prems
    by (simp add: budget_count_rec ents_Cons length_count_rec)
qed

lemma row_length_fold_mono:
  "t < length tab \<Longrightarrow> length (tab ! t) \<le> length (fold count_rec recs tab ! t)"
proof (induction recs arbitrary: tab)
  case Nil
  then show ?case by simp
next
  case (Cons r recs)
  have "length (tab ! t) \<le> length (count_rec r tab ! t)"
    using Cons.prems by (simp add: row_length_count_rec)
  moreover have "length (count_rec r tab ! t) \<le> length (fold count_rec recs (count_rec r tab) ! t)"
    using Cons.prems by (intro Cons.IH) (simp add: length_count_rec)
  ultimately show ?case by simp
qed

lemma key_in_row_fold:
  "\<forall>r\<in>set recs. fst r < length tab \<Longrightarrow> r \<in> set recs \<Longrightarrow>
   fst (snd r) < length (fold count_rec recs tab ! fst r)"
proof (induction recs arbitrary: tab)
  case Nil
  then show ?case by simp
next
  case (Cons x recs)
  show ?case
  proof (cases "r = x")
    case True
    have "fst (snd x) < length (count_rec x tab ! fst x)"
      using Cons.prems by (simp add: row_length_count_rec)
    moreover have "length (count_rec x tab ! fst x) \<le> length (fold count_rec recs (count_rec x tab) ! fst x)"
      using Cons.prems by (intro row_length_fold_mono) (simp add: length_count_rec)
    ultimately show ?thesis using True by simp
  next
    case False
    then have "r \<in> set recs" using Cons.prems by simp
    moreover have "\<forall>r\<in>set recs. fst r < length (count_rec x tab)"
      using Cons.prems by (simp add: length_count_rec)
    ultimately show ?thesis using Cons.IH [of "count_rec x tab"] by simp
  qed
qed

lemma row_length_fold_bounded:
  "\<forall>r\<in>set recs. fst (snd r) < m \<Longrightarrow> \<forall>t<length tab. length (tab ! t) = m \<Longrightarrow> t < length tab \<Longrightarrow>
   length (fold count_rec recs tab ! t) = m"
proof (induction recs arbitrary: tab)
  case Nil
  then show ?case by simp
next
  case (Cons r recs)
  have "\<forall>t<length (count_rec r tab). length (count_rec r tab ! t) = m"
    using Cons.prems by (auto simp: length_count_rec row_length_count_rec)
  then show ?case using Cons.IH [of "count_rec r tab"] Cons.prems
    by (simp add: length_count_rec)
qed

subsection \<open>Layout of the write cursors\<close>

lemma group_start_0: "group_start tab tp 0 = tp"
  by (simp add: group_start_def)

lemma group_start_Suc: "group_start tab tp (Suc g) = group_start tab tp g + group_total tab g"
  by (simp add: group_start_def)

lemma group_start_mono: "g \<le> g' \<Longrightarrow> group_start tab tp g \<le> group_start tab tp g'"
  by (simp add: group_start_def sum_upto_mono)

lemma cursor_ge: "group_start tab tp g \<le> cursor tab tp t g"
  by (simp add: cursor_def)

lemma cursor_end_le_next:
  "t < t' \<Longrightarrow> cursor tab tp t g + budget tab t g \<le> cursor tab tp t' g"
  using sum_upto_Suc_le [of t t' "\<lambda>t. budget tab t g"] by (simp add: cursor_def)

lemma cursor_end_le_group:
  assumes "t < length tab"
  shows "cursor tab tp t g + budget tab t g \<le> group_start tab tp (Suc g)"
  using sum_upto_Suc_le [OF assms, of "\<lambda>t. budget tab t g"]
  by (simp add: cursor_def group_start_Suc group_total_def)

lemma cursor_disjoint:
  assumes "t < length tab" "t' < length tab" "(t, g) \<noteq> (t', g')"
  shows "cursor tab tp t g + budget tab t g \<le> cursor tab tp t' g' \<or>
         cursor tab tp t' g' + budget tab t' g' \<le> cursor tab tp t g"
proof -
  consider "g < g'" | "g' < g" | "g = g'" "t < t'" | "g = g'" "t' < t"
    using assms(3) by force
  then show ?thesis
  proof cases
    case 1
    have "cursor tab tp t g + budget tab t g \<le> group_start tab tp (Suc g)"
      by (rule cursor_end_le_group [OF assms(1)])
    also have "\<dots> \<le> group_start tab tp g'" using 1 by (simp add: group_start_mono)
    also have "\<dots> \<le> cursor tab tp t' g'" by (rule cursor_ge)
    finally show ?thesis by simp
  next
    case 2
    have "cursor tab tp t' g' + budget tab t' g' \<le> group_start tab tp (Suc g')"
      by (rule cursor_end_le_group [OF assms(2)])
    also have "\<dots> \<le> group_start tab tp g" using 2 by (simp add: group_start_mono)
    also have "\<dots> \<le> cursor tab tp t g" by (rule cursor_ge)
    finally show ?thesis by simp
  next
    case 3
    then show ?thesis using cursor_end_le_next [of t t' tab tp g] by simp
  next
    case 4
    then show ?thesis using cursor_end_le_next [of t' t tab tp g] by simp
  qed
qed

lemma fold_max_ge: "a \<le> fold max xs (a::nat)"
proof (induction xs arbitrary: a)
  case Nil
  then show ?case by simp
next
  case (Cons x xs)
  have "a \<le> max x a" by simp
  also have "\<dots> \<le> fold max xs (max x a)" by (rule Cons.IH)
  finally show ?case by simp
qed

lemma fold_max_mem: "x \<in> set xs \<Longrightarrow> x \<le> fold max xs (a::nat)"
proof (induction xs arbitrary: a)
  case Nil
  then show ?case by simp
next
  case (Cons y xs)
  show ?case
  proof (cases "x = y")
    case True
    have "x \<le> max y a" using True by simp
    also have "\<dots> \<le> fold max xs (max y a)" by (rule fold_max_ge)
    finally show ?thesis by simp
  next
    case False
    then show ?thesis using Cons by simp
  qed
qed

lemma fold_max_const: "\<forall>x\<in>set xs. x = m \<Longrightarrow> a \<le> m \<Longrightarrow> xs \<noteq> [] \<Longrightarrow> fold max xs (a::nat) = m"
proof (induction xs arbitrary: a)
  case Nil
  then show ?case by simp
next
  case (Cons x xs)
  show ?case
  proof (cases "xs = []")
    case True
    then show ?thesis using Cons.prems by (simp add: max_def)
  next
    case False
    then show ?thesis using Cons.prems Cons.IH [of "max x a"] by simp
  qed
qed

lemma row_length_le_ngroups: "t < length tab \<Longrightarrow> length (tab ! t) \<le> ngroups tab"
  unfolding ngroups_def by (rule fold_max_mem) simp

lemma ngroups_const:
  "tab \<noteq> [] \<Longrightarrow> \<forall>t<length tab. length (tab ! t) = m \<Longrightarrow> ngroups tab = m"
  unfolding ngroups_def by (rule fold_max_const) (auto simp: in_set_conv_nth)

lemma cursor_end_le_total:
  assumes "t < length tab" "g < length (tab ! t)"
  shows "cursor tab tp t g + budget tab t g \<le> group_start tab tp (ngroups tab)"
proof -
  have "Suc g \<le> ngroups tab" using row_length_le_ngroups [OF assms(1)] assms(2) by simp
  then have "group_start tab tp (Suc g) \<le> group_start tab tp (ngroups tab)"
    by (rule group_start_mono)
  with cursor_end_le_group [OF assms(1), of tp g] show ?thesis by simp
qed

lemma budget_pos_in_table:
  "0 < budget tab t g \<Longrightarrow> t < length tab \<and> g < length (tab ! t)"
  by (auto simp: budget_def split: if_splits)

subsection \<open>The placement pass\<close>

lemma foldM_append:
  "foldM f (xs @ ys) s = (case foldM f xs s of Inl e \<Rightarrow> Inl e | Inr s' \<Rightarrow> foldM f ys s')"
  by (induction xs arbitrary: s) (auto split: sum.splits)


lemma cursor_table_update:
  assumes "t < length T" "k < length (T ! t)"
  shows "(map (\<lambda>t. map (\<lambda>g. cursor T tp t g + length (ents R t g)) [0..<length (T ! t)]) [0..<length T])
           [t := (map (\<lambda>g. cursor T tp t g + length (ents R t g)) [0..<length (T ! t)])
                   [k := cursor T tp t k + length (ents R t k) + 1]]
         = map (\<lambda>t'. map (\<lambda>g. cursor T tp t' g + length (ents (R @ [(t, k, e)]) t' g)) [0..<length (T ! t')])
             [0..<length T]"
proof (rule nth_equalityI)
  show "length ((map (\<lambda>t. map (\<lambda>g. cursor T tp t g + length (ents R t g)) [0..<length (T ! t)]) [0..<length T])
           [t := (map (\<lambda>g. cursor T tp t g + length (ents R t g)) [0..<length (T ! t)])
                   [k := cursor T tp t k + length (ents R t k) + 1]])
        = length (map (\<lambda>t'. map (\<lambda>g. cursor T tp t' g + length (ents (R @ [(t, k, e)]) t' g)) [0..<length (T ! t')])
             [0..<length T])" by simp
next
  fix i
  assume "i < length ((map (\<lambda>t. map (\<lambda>g. cursor T tp t g + length (ents R t g)) [0..<length (T ! t)]) [0..<length T])
           [t := (map (\<lambda>g. cursor T tp t g + length (ents R t g)) [0..<length (T ! t)])
                   [k := cursor T tp t k + length (ents R t k) + 1]])"
  then have i: "i < length T" by simp
  show "(map (\<lambda>t. map (\<lambda>g. cursor T tp t g + length (ents R t g)) [0..<length (T ! t)]) [0..<length T])
           [t := (map (\<lambda>g. cursor T tp t g + length (ents R t g)) [0..<length (T ! t)])
                   [k := cursor T tp t k + length (ents R t k) + 1]] ! i
        = map (\<lambda>t'. map (\<lambda>g. cursor T tp t' g + length (ents (R @ [(t, k, e)]) t' g)) [0..<length (T ! t')])
             [0..<length T] ! i"
  proof (cases "i = t")
    case False
    then show ?thesis using i by (simp add: ents_append ents_Cons ents_def)
  next
    case True
    have "(map (\<lambda>g. cursor T tp t g + length (ents R t g)) [0..<length (T ! t)])
                   [k := cursor T tp t k + length (ents R t k) + 1]
          = map (\<lambda>g. cursor T tp t g + length (ents (R @ [(t, k, e)]) t g)) [0..<length (T ! t)]"
      by (rule nth_equalityI) (auto simp: nth_list_update ents_def)
    then show ?thesis using True i by simp
  qed
qed

lemma pass2_prefix:
  assumes tids: "\<forall>r\<in>set recs. fst r < length T"
      and keys: "\<forall>r\<in>set recs. fst (snd r) < length (T ! fst r)"
      and cnt: "\<forall>t g. budget T t g = length (ents recs t g)"
      and c0: "thread_rptr b0 = map (\<lambda>t. map (\<lambda>g. cursor T tp t g) [0..<length (T ! t)]) [0..<length T]"
      and len: "length (gdata b0) = group_start T tp (ngroups T)"
  shows "recs = R @ R' \<Longrightarrow>
    \<exists>b. foldM (place_rec (base_row_offset b0)) R b0 = Inr b \<and>
        base_row_offset b = base_row_offset b0 \<and> rptr b = rptr b0 \<and>
        length (gdata b) = length (gdata b0) \<and>
        thread_rptr b = map (\<lambda>t. map (\<lambda>g. cursor T tp t g + length (ents R t g)) [0..<length (T ! t)])
                          [0..<length T] \<and>
        (\<forall>t g j. j < length (ents R t g) \<longrightarrow> gdata b ! (cursor T tp t g + j) = ents R t g ! j) \<and>
        (\<forall>p<tp. gdata b ! p = gdata b0 ! p)"
proof (induction R arbitrary: R' rule: rev_induct)
  case Nil
  then show ?case using c0 by (simp add: ents_def)
next
  case (snoc r R)
  obtain t k e where r: "r = (t, k, e)" by (cases r) auto
  have recs: "recs = R @ (r # R')" using snoc.prems by simp
  from snoc.IH [OF recs] obtain b where
    run: "foldM (place_rec (base_row_offset b0)) R b0 = Inr b"
    and base: "base_row_offset b = base_row_offset b0" and rp: "rptr b = rptr b0"
    and lb: "length (gdata b) = length (gdata b0)"
    and tb: "thread_rptr b = map (\<lambda>t. map (\<lambda>g. cursor T tp t g + length (ents R t g)) [0..<length (T ! t)])
                          [0..<length T]"
    and db: "\<forall>t g j. j < length (ents R t g) \<longrightarrow> gdata b ! (cursor T tp t g + j) = ents R t g ! j"
    and pb: "\<forall>p<tp. gdata b ! p = gdata b0 ! p"
    by blast
  have mem: "r \<in> set recs" using recs by simp
  have t: "t < length T" using tids mem r by auto
  have k: "k < length (T ! t)" using keys mem r by auto
  let ?c = "length (ents R t k)"
  let ?pos = "cursor T tp t k + ?c"
  have "ents recs t k = ents R t k @ e # ents R' t k"
    using recs r by (simp add: ents_append ents_Cons)
  then have cb: "?c < budget T t k" using cnt by simp
  have "cursor T tp t k + budget T t k \<le> group_start T tp (ngroups T)"
    by (rule cursor_end_le_total [OF t k])
  then have pos: "?pos < length (gdata b)" using cb lb len by simp
  have cur: "thread_rptr b ! t ! k = ?pos" using tb t k by simp
  have row: "thread_rptr b ! t = map (\<lambda>g. cursor T tp t g + length (ents R t g)) [0..<length (T ! t)]"
    using tb t by simp
  let ?b' = "b\<lparr>gdata := (gdata b)[?pos := e],
               thread_rptr := (thread_rptr b)[t := (thread_rptr b ! t)[k := ?pos + 1]]\<rparr>"
  have step: "place_rec (base_row_offset b0) r b = Inr ?b'"
    using t k pos cur base tb by (simp add: place_rec_def Push_def r Let_def)
  have run': "foldM (place_rec (base_row_offset b0)) (R @ [r]) b0 = Inr ?b'"
    using run step by (simp add: foldM_append)
  have tb': "thread_rptr ?b' = map (\<lambda>t'. map (\<lambda>g. cursor T tp t' g + length (ents (R @ [r]) t' g))
                 [0..<length (T ! t')]) [0..<length T]"
  proof -
    have "thread_rptr ?b' = (thread_rptr b)[t := (thread_rptr b ! t)[k := ?pos + 1]]" by simp
    also have "\<dots> = (thread_rptr b)[t := (map (\<lambda>g. cursor T tp t g + length (ents R t g))
                    [0..<length (T ! t)])[k := ?pos + 1]]"
      by (simp only: row)
    also have "\<dots> = map (\<lambda>t'. map (\<lambda>g. cursor T tp t' g + length (ents (R @ [r]) t' g))
                 [0..<length (T ! t')]) [0..<length T]"
      unfolding tb r by (rule cursor_table_update [OF t k])
    finally show ?thesis .
  qed
  have db': "gdata ?b' ! (cursor T tp t' g' + j) = ents (R @ [r]) t' g' ! j"
    if j: "j < length (ents (R @ [r]) t' g')" for t' g' j
  proof (cases "(t', g') = (t, k)")
    case True
    show ?thesis
    proof (cases "j = ?c")
      case True
      have "ents (R @ [r]) t k = ents R t k @ [e]"
        using r by (simp add: ents_append ents_Cons) (simp add: ents_def)
      then show ?thesis using \<open>(t', g') = (t, k)\<close> \<open>j = ?c\<close> pos by simp
    next
      case False
      then have "j < ?c" using j True r by (simp add: ents_append ents_Cons ents_def)
      then show ?thesis using True db r False
        by (simp add: ents_append nth_append)
    qed
  next
    case False
    then have e': "ents (R @ [r]) t' g' = ents R t' g'"
      using r by (auto simp: ents_append ents_Cons ents_def)
    then have j': "j < length (ents R t' g')" using j by simp
    have "length (ents R t' g') \<le> length (ents recs t' g')"
      using recs by (simp add: ents_append)
    then have jb: "j < budget T t' g'" using j' cnt by simp
    then have t': "t' < length T" using budget_pos_in_table [of T t' g'] by simp
    have "cursor T tp t' g' + budget T t' g' \<le> cursor T tp t k \<or>
          cursor T tp t k + budget T t k \<le> cursor T tp t' g'"
      using cursor_disjoint [OF t' t False, of tp] .
    then have "cursor T tp t' g' + j \<noteq> ?pos" using jb cb by arith
    then show ?thesis using db j' e' by simp
  qed
  have pb': "\<forall>p<tp. gdata ?b' ! p = gdata b0 ! p"
  proof (intro allI impI)
    fix p assume p: "p < tp"
    have "tp \<le> group_start T tp k" using group_start_mono [of 0 k T tp] by (simp add: group_start_0)
    also have "\<dots> \<le> ?pos" using cursor_ge [of T tp k t] by simp
    finally have "p \<noteq> ?pos" using p by simp
    then show "gdata ?b' ! p = gdata b0 ! p" using pb p by simp
  qed
  show ?case
    apply (rule exI [of _ ?b'])
    using run' tb' db' pb' base rp lb by simp
qed

subsection \<open>The storage after both passes\<close>

lemma length_group_block:
  "\<forall>t g. budget T t g = length (ents recs t g) \<Longrightarrow>
   length (group_block recs (length T) g) = group_total T g"
  by (simp add: group_block_def group_total_def length_concat_upto)

lemma placed_data:
  assumes cnt: "\<forall>t g. budget T t g = length (ents recs t g)"
      and len: "length D = group_start T tp (ngroups T)"
      and db: "\<forall>t g j. j < length (ents recs t g) \<longrightarrow> D ! (cursor T tp t g + j) = ents recs t g ! j"
  shows "drop tp D = concat (map (group_block recs (length T)) [0..<ngroups T])"
proof (rule nth_equalityI)
  have gl: "(\<lambda>g. length (group_block recs (length T) g)) = group_total T"
    using length_group_block [OF cnt] by auto
  show l: "length (drop tp D) = length (concat (map (group_block recs (length T)) [0..<ngroups T]))"
    by (simp add: len length_concat_upto gl group_start_def)
  fix p assume "p < length (drop tp D)"
  then have p: "p < length (concat (map (group_block recs (length T)) [0..<ngroups T]))"
    using l by simp
  from concat_upto_split [OF p] obtain g q where
    g: "g < ngroups T" and q: "q < length (group_block recs (length T) g)"
    and pq: "p = sum_list (map (\<lambda>g. length (group_block recs (length T) g)) [0..<g]) + q"
    by blast
  have q': "q < length (concat (map (\<lambda>t. ents recs t g) [0..<length T]))"
    using q by (simp add: group_block_def)
  from concat_upto_split [OF q'] obtain t j where
    t: "t < length T" and j: "j < length (ents recs t g)"
    and qj: "q = sum_list (map (\<lambda>t. length (ents recs t g)) [0..<t]) + j"
    by blast
  have bl: "(\<lambda>t. length (ents recs t g)) = (\<lambda>t. budget T t g)" using cnt by simp
  have pos: "tp + p = cursor T tp t g + j"
    by (simp add: pq qj gl bl cursor_def group_start_def)
  have "concat (map (group_block recs (length T)) [0..<ngroups T]) ! p
        = group_block recs (length T) g ! q"
    unfolding pq by (rule concat_upto_nth [where f = "group_block recs (length T)", OF g q])
  also have "\<dots> = ents recs t g ! j"
    unfolding group_block_def qj by (rule concat_upto_nth [where f = "\<lambda>t. ents recs t g", OF t j])
  also have "\<dots> = D ! (tp + p)" using db j pos by simp
  also have "\<dots> = drop tp D ! p" using \<open>p < length (drop tp D)\<close> by simp
  finally show "drop tp D ! p = concat (map (group_block recs (length T)) [0..<ngroups T]) ! p"
    by simp
qed

lemma AddBudget_count_rec:
  "fst r < length (thread_rptr b) \<Longrightarrow>
   AddBudget (base_row_offset b + fst (snd r)) (fst r) b
     = Inr (b\<lparr>thread_rptr := count_rec r (thread_rptr b)\<rparr>)"
  by (simp add: AddBudget_def count_rec_def bump_def Let_def)


lemma count_pass:
  "\<forall>r\<in>set recs. fst r < length (thread_rptr b) \<Longrightarrow>
   foldM (budget_rec (base_row_offset b)) recs b
     = Inr (b\<lparr>thread_rptr := fold count_rec recs (thread_rptr b)\<rparr>)"
proof (induction recs arbitrary: b)
  case Nil
  then show ?case by simp
next
  case (Cons r recs)
  let ?b = "b\<lparr>thread_rptr := count_rec r (thread_rptr b)\<rparr>"
  have s: "budget_rec (base_row_offset b) r b = Inr ?b"
    using Cons.prems by (simp add: budget_rec_def AddBudget_count_rec)
  have "\<forall>r\<in>set recs. fst r < length (thread_rptr ?b)"
    using Cons.prems by (simp add: length_count_rec)
  from Cons.IH [OF this] s show ?case by simp
qed

lemma group_start_blocks:
  assumes cnt: "\<forall>t g. budget T t g = length (ents recs t g)"
  shows "group_start T tp g = tp + length (concat (map (group_block recs (length T)) [0..<g]))"
proof -
  have "(\<lambda>g. length (group_block recs (length T) g)) = group_total T"
    using length_group_block [OF cnt] by auto
  then show ?thesis by (simp add: group_start_def length_concat_upto)
qed

lemma resize_ge: "length xs \<le> n \<Longrightarrow> resize n d xs = xs @ replicate (n - length xs) d"
  by (simp add: resize_def)

lemma budget_replicate: "budget (replicate n (replicate m 0)) t g = 0"
  by (auto simp: budget_def)

lemma InitStorage_fields:
  assumes "tp = (if rptr b = [] then 0 else last (rptr b))"
  shows "rptr (InitStorage b) =
           rptr b @ map (\<lambda>g. group_start (thread_rptr b) tp (Suc g)) [0..<ngroups (thread_rptr b)]"
    and "gdata (InitStorage b) =
           resize (group_start (thread_rptr b) tp (ngroups (thread_rptr b))) default_Entry (gdata b)"
    and "thread_rptr (InitStorage b) =
           map (\<lambda>t. map (\<lambda>g. cursor (thread_rptr b) tp t g) [0..<length (thread_rptr b ! t)])
             [0..<length (thread_rptr b)]"
    and "base_row_offset (InitStorage b) = base_row_offset b"
proof -
  let ?T = "thread_rptr b"
  let ?r = "rptr b @ map (\<lambda>g. group_start ?T tp (Suc g)) [0..<ngroups ?T]"
  show r: "rptr (InitStorage b) = ?r" using assms by (simp add: InitStorage_def Let_def)
  have "(if ?r = [] then 0 else last ?r) = group_start ?T tp (ngroups ?T)"
  proof (cases "ngroups ?T")
    case 0
    then show ?thesis using assms by (simp add: group_start_0)
  next
    case (Suc G)
    then show ?thesis by simp
  qed
  moreover have "gdata (InitStorage b) = resize (if ?r = [] then 0 else last ?r) default_Entry (gdata b)"
    unfolding InitStorage_def Let_def assms by simp
  ultimately show "gdata (InitStorage b) =
           resize (group_start ?T tp (ngroups ?T)) default_Entry (gdata b)" by simp
  show "thread_rptr (InitStorage b) =
           map (\<lambda>t. map (\<lambda>g. cursor ?T tp t g) [0..<length (?T ! t)]) [0..<length ?T]"
    using assms by (simp add: InitStorage_def Let_def)
  show "base_row_offset (InitStorage b) = base_row_offset b"
    by (simp add: InitStorage_def Let_def)
qed

lemma length_resize: "length (resize n d xs) = n"
  by (simp add: resize_def)

lemma nth_resize: "i < n \<Longrightarrow> resize n d xs ! i = (if i < length xs then xs ! i else d)"
  by (simp add: resize_def nth_append)

lemma builder_correct:
  assumes tab: "thread_rptr b1 = replicate n (replicate m 0)"
      and tids: "\<forall>r\<in>set recs. fst r < n"
  shows "\<exists>b2 b4.
     foldM (budget_rec (base_row_offset b1)) recs b1 = Inr b2 \<and>
     foldM (place_rec (base_row_offset b1)) recs (InitStorage b2) = Inr b4 \<and>
     rptr b4 = rptr b1 @
        map (\<lambda>g. last_or_0 (rptr b1) + length (concat (map (group_block recs n) [0..<Suc g])))
            [0..<ngroups (fold count_rec recs (replicate n (replicate m 0)))] \<and>
     gdata b4 = resize (last_or_0 (rptr b1)) default_Entry (gdata b1) @
        concat (map (group_block recs n) [0..<ngroups (fold count_rec recs (replicate n (replicate m 0)))])"
proof -
  let ?T = "fold count_rec recs (replicate n (replicate m 0))"
  let ?tp = "last_or_0 (rptr b1)"
  let ?b2 = "b1\<lparr>thread_rptr := ?T\<rparr>"
  let ?b3 = "InitStorage ?b2"
  have lT: "length ?T = n" by (simp add: length_fold_count)
  have tids': "\<forall>r\<in>set recs. fst r < length (replicate n (replicate m (0::nat)))"
    using tids by simp
  have p1: "foldM (budget_rec (base_row_offset b1)) recs b1 = Inr ?b2"
    using count_pass [of recs b1] tids tab by simp
  have cnt: "\<forall>t g. budget ?T t g = length (ents recs t g)"
    using budget_fold_count [OF tids'] by (simp add: budget_replicate)
  have keys: "\<forall>r\<in>set recs. fst (snd r) < length (?T ! fst r)"
    using key_in_row_fold [OF tids'] by blast
  have tidsT: "\<forall>r\<in>set recs. fst r < length ?T" using tids lT by simp
  have gs: "\<And>g. group_start ?T ?tp g = ?tp + length (concat (map (group_block recs n) [0..<g]))"
    using group_start_blocks [OF cnt, of ?tp] lT by simp
  have tp: "?tp = (if rptr ?b2 = [] then 0 else last (rptr ?b2))" by (simp add: last_or_0_def)
  have r3: "rptr ?b3 = rptr b1 @ map (\<lambda>g. group_start ?T ?tp (Suc g)) [0..<ngroups ?T]"
    using InitStorage_fields(1) [OF tp] by simp
  have d3: "gdata ?b3 = resize (group_start ?T ?tp (ngroups ?T)) default_Entry (gdata b1)"
    using InitStorage_fields(2) [OF tp] by simp
  have ge: "?tp \<le> group_start ?T ?tp (ngroups ?T)" by (simp add: gs)
  have l3: "length (gdata ?b3) = group_start ?T ?tp (ngroups ?T)"
    by (simp add: d3 length_resize)
  have t3: "thread_rptr ?b3 = map (\<lambda>t. map (\<lambda>g. cursor ?T ?tp t g) [0..<length (?T ! t)]) [0..<length ?T]"
    using InitStorage_fields(3) [OF tp] by simp
  have base3: "base_row_offset ?b3 = base_row_offset b1"
    using InitStorage_fields(4) [OF tp] by simp
  from pass2_prefix [OF tidsT keys cnt t3 l3, of recs "[]"] obtain b4 where
    run: "foldM (place_rec (base_row_offset ?b3)) recs ?b3 = Inr b4"
    and r4: "rptr b4 = rptr ?b3" and l4: "length (gdata b4) = length (gdata ?b3)"
    and d4: "\<forall>t g j. j < length (ents recs t g) \<longrightarrow> gdata b4 ! (cursor ?T ?tp t g + j) = ents recs t g ! j"
    and p4: "\<forall>p<?tp. gdata b4 ! p = gdata ?b3 ! p"
    by auto
  have dr: "drop ?tp (gdata b4) = concat (map (group_block recs n) [0..<ngroups ?T])"
    using placed_data [OF cnt _ d4] l4 l3 lT by simp
  have tk: "take ?tp (gdata b4) = resize ?tp default_Entry (gdata b1)"
  proof (rule nth_equalityI)
    show "length (take ?tp (gdata b4)) = length (resize ?tp default_Entry (gdata b1))"
      using l4 l3 ge by (simp add: length_resize)
    fix i assume "i < length (take ?tp (gdata b4))"
    then have i: "i < ?tp" by simp
    then have "i < group_start ?T ?tp (ngroups ?T)" using ge by simp
    then have "gdata ?b3 ! i = resize ?tp default_Entry (gdata b1) ! i"
      unfolding d3 using i by (simp add: nth_resize)
    then show "take ?tp (gdata b4) ! i = resize ?tp default_Entry (gdata b1) ! i"
      using p4 i by simp
  qed
  have "gdata b4 = take ?tp (gdata b4) @ drop ?tp (gdata b4)" by simp
  then have g4: "gdata b4 = resize ?tp default_Entry (gdata b1)
                   @ concat (map (group_block recs n) [0..<ngroups ?T])"
    using tk dr by simp
  have "rptr b4 = rptr b1 @
        map (\<lambda>g. ?tp + length (concat (map (group_block recs n) [0..<Suc g]))) [0..<ngroups ?T]"
    using r4 r3 gs by simp
  with p1 run g4 base3 show ?thesis by auto
qed

section \<open>Correctness of the transposition\<close>

lemma foldM_concat: "foldM f (concat xss) = foldM (\<lambda>xs. foldM f xs) xss"
proof
  fix s show "foldM f (concat xss) s = foldM (\<lambda>xs. foldM f xs) xss s"
    by (induction xss arbitrary: s) (auto simp: foldM_append split: sum.splits)
qed

lemma foldM_map: "foldM f (map h xs) = foldM (\<lambda>x. f (h x)) xs"
proof
  fix s show "foldM f (map h xs) s = foldM (\<lambda>x. f (h x)) xs s"
    by (induction xs arbitrary: s) (auto split: sum.splits)
qed

lemma map_upt_Suc_shift: "map h [0..<Suc m] = h 0 # map (\<lambda>g. h (Suc g)) [0..<m]"
  by (induction m) auto

lemma Size_page_of_rows: "Size (page_of_rows f m) = m"
  by (simp add: Size_def page_of_rows_def)

lemma inst_page_of_rows:
  assumes "g < m"
  shows "inst (page_of_rows f m) g = f g"
proof -
  have o1: "offset (page_of_rows f m) ! g = sum_list (map (\<lambda>i. length (f i)) [0..<g])"
    using assms by (simp add: page_of_rows_def length_concat_upto nth_append del: upt_Suc)
  have "offset (page_of_rows f m) ! (g + 1) = length (concat (map f [0..<Suc g]))"
    using assms nth_map_upt [of "Suc g" "Suc m" 0 "\<lambda>g. length (concat (map f [0..<g]))"]
    by (simp add: page_of_rows_def del: upt_Suc)
  then have o2: "offset (page_of_rows f m) ! (g + 1) - offset (page_of_rows f m) ! g = length (f g)"
    using o1 by (simp add: length_concat_upto)
  show ?thesis
    unfolding inst_def o2 unfolding o1 using concat_upto_slice [OF assms, of f]
    by (simp add: page_of_rows_def)
qed

lemma group_block_Nil: "group_block [] n = (\<lambda>g. [])"
  by (rule ext) (simp add: group_block_def ents_def)

lemma sum_mset_single_out:
  "k < m \<Longrightarrow>
   sum_list (map (\<lambda>g. if g = k then add_mset x (F g) else F g) [0..<m])
     = add_mset x (sum_list (map (F :: nat \<Rightarrow> 'a multiset) [0..<m]))"
proof (induction m)
  case 0
  then show ?case by simp
next
  case (Suc m)
  show ?case
  proof (cases "k = m")
    case True
    have h: "map (\<lambda>g. if g = m then add_mset x (F g) else F g) [0..<m] = map F [0..<m]"
      by (rule map_cong) auto
    show ?thesis unfolding True by (simp add: h)
  next
    case False
    then show ?thesis using Suc by simp
  qed
qed

lemma mset_group_block_Cons:
  assumes "fst r < n"
  shows "mset (group_block (r # recs) n g) =
           (if fst (snd r) = g then add_mset (snd (snd r)) (mset (group_block recs n g))
            else mset (group_block recs n g))"
proof (cases "fst (snd r) = g")
  case True
  have "(\<lambda>t. mset (ents (r # recs) t g))
        = (\<lambda>t. if t = fst r then add_mset (snd (snd r)) (mset (ents recs t g)) else mset (ents recs t g))"
    using True by (auto simp: ents_Cons)
  then show ?thesis
    using True sum_mset_single_out [OF assms, of "snd (snd r)" "\<lambda>t. mset (ents recs t g)"]
    by (simp add: group_block_def mset_concat comp_def)
next
  case False
  then have "(\<lambda>t. ents (r # recs) t g) = (\<lambda>t. ents recs t g)" by (auto simp: ents_Cons)
  then show ?thesis using False by (simp add: group_block_def)
qed

lemma mset_blocks:
  "\<forall>r\<in>set recs. fst r < n \<and> fst (snd r) < m \<Longrightarrow>
   mset (concat (map (\<lambda>g. map (\<psi> g) (group_block recs n g)) [0..<m]))
     = mset (map (\<lambda>r. \<psi> (fst (snd r)) (snd (snd r))) recs)"
proof (induction recs)
  case Nil
  then show ?case by (simp add: group_block_Nil mset_concat comp_def)
next
  case (Cons r recs)
  have n: "fst r < n" and m: "fst (snd r) < m" using Cons.prems by auto
  let ?F = "\<lambda>g. image_mset (\<psi> g) (mset (group_block recs n g))"
  have "(\<lambda>g. mset (map (\<psi> g) (group_block (r # recs) n g)))
        = (\<lambda>g. if g = fst (snd r) then add_mset (\<psi> (fst (snd r)) (snd (snd r))) (?F g) else ?F g)"
    by (auto simp: mset_group_block_Cons [OF n])
  then have "mset (concat (map (\<lambda>g. map (\<psi> g) (group_block (r # recs) n g)) [0..<m]))
        = add_mset (\<psi> (fst (snd r)) (snd (snd r))) (sum_list (map ?F [0..<m]))"
    using sum_mset_single_out [OF m, of "\<psi> (fst (snd r)) (snd (snd r))" ?F]
    by (simp add: mset_concat comp_def)
  also have "sum_list (map ?F [0..<m]) = mset (concat (map (\<lambda>g. map (\<psi> g) (group_block recs n g)) [0..<m]))"
    by (simp add: mset_concat comp_def)
  finally show ?case using Cons by simp
qed

lemma count_pass_flat:
  "foldM (\<lambda>i. foldM (\<lambda>entry. AddBudget (unat (index entry)) (sched i)) (inst P i)) [0..<Size P] b
   = foldM (budget_rec 0) (transpose_recs P sched) b"
  by (simp add: transpose_recs_def foldM_concat foldM_map budget_rec_def)

lemma place_pass_flat:
  "foldM (\<lambda>i. foldM (\<lambda>entry. Push (unat (index entry))
                     \<lparr>index = of_nat (base_rowid P + i), fvalue = fvalue entry\<rparr> (sched i))
                   (inst P i)) [0..<Size P] b
   = foldM (place_rec 0) (transpose_recs P sched) b"
  by (simp add: transpose_recs_def foldM_concat foldM_map place_rec_def)

lemma transpose_recs_bounds:
  assumes "\<forall>i<Size P. sched i < n"
      and "\<forall>i<Size P. \<forall>e\<in>set (inst P i). unat (index e) < nc"
  shows "\<forall>r\<in>set (transpose_recs P sched). fst r < n \<and> fst (snd r) < nc"
  using assms by (auto simp: transpose_recs_def)

lemma ngroups_counted:
  assumes "0 < n" "\<forall>r\<in>set recs. fst (snd r) < m"
  shows "ngroups (fold count_rec recs (replicate n (replicate m 0))) = m"
proof (rule ngroups_const)
  show "fold count_rec recs (replicate n (replicate m 0)) \<noteq> []"
    using assms(1) length_fold_count [of recs "replicate n (replicate m 0)"] by auto
  show "\<forall>t<length (fold count_rec recs (replicate n (replicate m 0))).
          length (fold count_rec recs (replicate n (replicate m 0)) ! t) = m"
    using row_length_fold_bounded [OF assms(2), of "replicate n (replicate m 0)"]
    by (simp add: length_fold_count)
qed

lemma transpose_recs_empty: "data P = [] \<Longrightarrow> transpose_recs P sched = []"
  by (simp add: transpose_recs_def inst_def)

lemma GetTranspose_result:
  assumes n: "0 < n" and sched: "\<forall>i<Size P. sched i < n"
      and cols: "\<forall>i<Size P. \<forall>e\<in>set (inst P i). unat (index e) < nc"
      and int: "nc < 2 ^ 31 - 1"
  shows "GetTranspose (of_nat nc) n sched P
         = Inr (page_of_rows (group_block (transpose_recs P sched) n) nc)"
proof -
  let ?recs = "transpose_recs P sched"
  have c0: "to_size_t (of_nat nc) = nc"
    using int by (simp add: to_size_t_of_nat)
  have "to_size_t (of_nat (nc + 1)) = nc + 1"
    using int by (simp only: to_size_t_of_nat)
  then have c1: "to_size_t (of_nat nc + 1) = nc + 1" by (simp add: add.commute)
  let ?b1 = "InitBudget nc n (new_builder (offset empty_page) (data empty_page) 0)"
  have bnd: "\<forall>r\<in>set ?recs. fst r < n \<and> fst (snd r) < nc"
    by (rule transpose_recs_bounds [OF sched cols])
  have tab: "thread_rptr ?b1 = replicate n (replicate nc 0)"
    by (simp add: InitBudget_def)
  have G: "ngroups (fold count_rec ?recs (replicate n (replicate nc 0))) = nc"
    using ngroups_counted [OF n] bnd by blast
  have base: "base_row_offset ?b1 = 0" by (simp add: InitBudget_def new_builder_def)
  from builder_correct [OF tab, of ?recs] bnd obtain b2 b4 where
    p1: "foldM (budget_rec 0) ?recs ?b1 = Inr b2"
    and p2: "foldM (place_rec 0) ?recs (InitStorage b2) = Inr b4"
    and r4: "rptr b4 = rptr ?b1 @
        map (\<lambda>g. last_or_0 (rptr ?b1) + length (concat (map (group_block ?recs n) [0..<Suc g])))
            [0..<nc]"
    and d4: "gdata b4 = resize (last_or_0 (rptr ?b1)) default_Entry (gdata ?b1)
                @ concat (map (group_block ?recs n) [0..<nc])"
    unfolding G base by blast
  have r4': "rptr b4 = map (\<lambda>g. length (concat (map (group_block ?recs n) [0..<g]))) [0..<Suc nc]"
    unfolding r4 map_upt_Suc_shift [of _ nc]
    by (simp add: InitBudget_def new_builder_def empty_page_def last_or_0_def)
  have d4': "gdata b4 = concat (map (group_block ?recs n) [0..<nc])"
    unfolding d4
    by (simp add: InitBudget_def new_builder_def empty_page_def last_or_0_def resize_def)
  have zero: "replicate (nc + 1) 0 = map (\<lambda>g. length (concat (map (group_block ?recs n) [0..<g]))) [0..<Suc nc]"
    if "data P = []"
    using transpose_recs_empty [OF that, of sched]
    by (simp add: group_block_Nil map_replicate_const del: upt_Suc)
  show ?thesis
    unfolding GetTranspose_def Let_def c0 c1 count_pass_flat place_pass_flat p1 sum.case p2
    using zero by (simp add: r4' d4' page_of_rows_def empty_page_def del: upt_Suc)
qed

lemma triples_page_of_rows:
  "triples (page_of_rows f m) = mset (concat (map (\<lambda>g. map (\<lambda>e. (g, index e, fvalue e)) (f g)) [0..<m]))"
proof -
  have "map (\<lambda>i. map (\<lambda>e. (i, index e, fvalue e)) (inst (page_of_rows f m) i)) [0..<m]
        = map (\<lambda>g. map (\<lambda>e. (g, index e, fvalue e)) (f g)) [0..<m]"
    by (rule map_cong) (auto simp: inst_page_of_rows)
  then show ?thesis unfolding triples_def Size_page_of_rows by (rule arg_cong)
qed

lemma triples_transpose:
  assumes sched: "\<forall>i<Size P. sched i < n"
      and cols: "\<forall>i<Size P. \<forall>e\<in>set (inst P i). unat (index e) < nc"
  shows "triples (page_of_rows (group_block (transpose_recs P sched) n) nc)
         = image_mset (\<lambda>(i, c, v). (unat c, of_nat (base_rowid P + i), v)) (triples P)"
proof -
  let ?recs = "transpose_recs P sched"
  have bnd: "\<forall>r\<in>set ?recs. fst r < n \<and> fst (snd r) < nc"
    by (rule transpose_recs_bounds [OF sched cols])
  have "triples (page_of_rows (group_block ?recs n) nc)
        = mset (map (\<lambda>r. (fst (snd r), index (snd (snd r)), fvalue (snd (snd r)))) ?recs)"
    unfolding triples_page_of_rows
    by (rule mset_blocks [OF bnd, of "\<lambda>g e. (g, index e, fvalue e)"])
  also have "\<dots> = mset (map (\<lambda>(i, c, v). (unat c, of_nat (base_rowid P + i), v))
                 (concat (map (\<lambda>i. map (\<lambda>e. (i, index e, fvalue e)) (inst P i)) [0..<Size P])))"
    by (simp add: transpose_recs_def map_concat comp_def del: mset_map)
  also have "\<dots> = image_mset (\<lambda>(i, c, v). (unat c, of_nat (base_rowid P + i), v)) (triples P)"
    unfolding triples_def by (rule mset_map)
  finally show ?thesis .
qed

lemma triples_row_bound: "(i, c, v) \<in># triples P \<Longrightarrow> i < Size P"
  by (auto simp: triples_def)

lemma set_group_block: "set (group_block recs n g) \<subseteq> (\<lambda>r. snd (snd r)) ` set recs"
  by (auto simp: group_block_def ents_def)

text \<open>
  Claim C8, as amended. For a page with base row id 0 and fewer than \<open>2\<^sup>3\<^sup>1 - 1\<close> rows
  whose entries all have a column index below \<open>num_columns\<close>, itself below
  \<open>2\<^sup>3\<^sup>1 - 1\<close>, transposing with \<open>num_columns\<close> columns and transposing the
  result with as many columns as the page has rows succeeds twice and gives a page with
  the same multiset of (row, column, value) triples, whatever the thread counts and the
  schedules of the two runs. (The transposition writes the global row number, base row
  id plus local row, cut to 32 bits, into the index field; and it takes the number of
  columns as an \<^verbatim>\<open>int\<close>, to which it adds 1.)
\<close>

theorem transpose_round_trip:
  assumes base: "base_rowid P = 0" and rows: "Size P < 2 ^ 31 - 1"
      and int: "num_columns < 2 ^ 31 - 1"
      and cols: "\<forall>i<Size P. \<forall>e\<in>set (inst P i). unat (index e) < num_columns"
      and n1: "0 < n1" and n2: "0 < n2"
      and s1: "\<forall>i<Size P. sched1 i < n1" and s2: "\<forall>g<num_columns. sched2 g < n2"
  shows "\<exists>T T'. GetTranspose (of_nat num_columns) n1 sched1 P = Inr T \<and>
                GetTranspose (of_nat (Size P)) n2 sched2 T = Inr T' \<and>
                triples T' = triples P"
proof -
  let ?T = "page_of_rows (group_block (transpose_recs P sched1) n1) num_columns"
  have t1: "GetTranspose (of_nat num_columns) n1 sched1 P = Inr ?T"
    by (rule GetTranspose_result [OF n1 s1 cols int])
  have sT: "Size ?T = num_columns" by (rule Size_page_of_rows)
  have bT: "base_rowid ?T = 0" by (simp add: page_of_rows_def)
  have small: "unat (of_nat i :: 32 word) = i" if "i < Size P" for i
    using that rows by (simp add: unat_of_nat)
  have cols': "\<forall>g<Size ?T. \<forall>e\<in>set (inst ?T g). unat (index e) < Size P"
  proof (intro allI impI ballI)
    fix g e assume g: "g < Size ?T" and e: "e \<in> set (inst ?T g)"
    then have "e \<in> set (group_block (transpose_recs P sched1) n1 g)"
      by (simp add: sT inst_page_of_rows)
    then obtain r where r: "r \<in> set (transpose_recs P sched1)" and er: "e = snd (snd r)"
      using set_group_block by blast
    then obtain i where "i < Size P" "index e = of_nat (base_rowid P + i)"
      by (auto simp: transpose_recs_def)
    then show "unat (index e) < Size P" using small base by simp
  qed
  let ?T' = "page_of_rows (group_block (transpose_recs ?T sched2) n2) (Size P)"
  have s2': "\<forall>g<Size ?T. sched2 g < n2" using s2 sT by simp
  have t2: "GetTranspose (of_nat (Size P)) n2 sched2 ?T = Inr ?T'"
    by (rule GetTranspose_result [OF n2 s2' cols' rows])
  let ?f = "\<lambda>(i, c, v). (unat (c :: 32 word), of_nat (base_rowid P + i) :: 32 word, v :: f32)"
  let ?g = "\<lambda>(i, c, v). (unat (c :: 32 word), of_nat (base_rowid ?T + i) :: 32 word, v :: f32)"
  have "triples ?T' = image_mset ?g (triples ?T)"
    by (rule triples_transpose [OF s2' cols'])
  also have "triples ?T = image_mset ?f (triples P)"
    by (rule triples_transpose [OF s1 cols])
  also have "image_mset ?g (image_mset ?f (triples P)) = image_mset (\<lambda>x. x) (triples P)"
    unfolding image_mset.compositionality
  proof (rule image_mset_cong)
    fix x assume x: "x \<in># triples P"
    obtain i c v where xe: "x = (i, c, v)" by (cases x) auto
    have "i < Size P" using x xe triples_row_bound by blast
    then have "unat (of_nat i :: 32 word) = i" by (rule small)
    then show "(?g \<circ> ?f) x = x"
      using base bT xe by simp
  qed
  finally have "triples ?T' = triples P" by simp
  with t1 t2 show ?thesis by blast
qed

theorem transpose_round_trip_witness:
  "\<exists>T T'. GetTranspose 3 2 (\<lambda>i. i mod 2)
              \<lparr>offset = [0, 2, 3], data = [\<lparr>index = 0, fvalue = 1\<rparr>, \<lparr>index = 2, fvalue = 2\<rparr>,
                 \<lparr>index = 1, fvalue = 3\<rparr>], base_rowid = 0\<rparr> = Inr T \<and>
           GetTranspose 2 1 (\<lambda>g. 0) T = Inr T' \<and>
           triples T' = triples \<lparr>offset = [0, 2, 3], data = [\<lparr>index = 0, fvalue = 1\<rparr>, \<lparr>index = 2, fvalue = 2\<rparr>,
                 \<lparr>index = 1, fvalue = 3\<rparr>], base_rowid = 0\<rparr>"
proof -
  let ?P = "\<lparr>offset = [0, 2, 3], data = [\<lparr>index = 0, fvalue = 1\<rparr>, \<lparr>index = 2, fvalue = 2\<rparr>,
                 \<lparr>index = 1, fvalue = 3\<rparr>], base_rowid = 0\<rparr>"
  have s: "Size ?P = 2" by (simp add: Size_def)
  have i2: "i = 0 \<or> i = 1" if "i < Size ?P" for i using that s by auto
  have a: "base_rowid ?P = 0" by simp
  have b: "Size ?P < 2 ^ 31 - 1" by (simp add: s)
  have c: "\<forall>i<Size ?P. \<forall>e\<in>set (inst ?P i). unat (index e) < 3"
  proof (intro allI impI ballI)
    fix i e assume i: "i < Size ?P" and e: "e \<in> set (inst ?P i)"
    from i2 [OF i] show "unat (index e) < 3"
    proof
      assume "i = 0" with e show ?thesis by (auto simp: inst_def)
    next
      assume "i = 1" with e show ?thesis by (auto simp: inst_def)
    qed
  qed
  have d: "\<forall>i<Size ?P. (\<lambda>i. i mod 2) i < 2" by simp
  have e: "\<forall>g<3. (\<lambda>g. 0::nat) g < 1" by simp
  have "\<exists>T T'. GetTranspose (of_nat 3) 2 (\<lambda>i. i mod 2) ?P = Inr T \<and>
                GetTranspose (of_nat (Size ?P)) 1 (\<lambda>g. 0) T = Inr T' \<and>
                triples T' = triples ?P"
    by (rule transpose_round_trip [OF a b _ c _ _ d e]) simp_all
  then show ?thesis unfolding s by simp
qed

text \<open>
  The claim as stated, for every page, fails on a page with a base row id other than 0:
  the first transposition stores the global row number 5, which is not below the number
  of rows, and the second transposition ends in the failure of
  \<^verbatim>\<open>CHECK_EQ(transpose.offset.Size(), num_columns + 1)\<close>.
\<close>

theorem transpose_round_trip_counterexample:
  "unat (index \<lparr>index = 0, fvalue = 0x3F800000\<rparr>) < 1 \<and>
   Size \<lparr>offset = [0, 1], data = [\<lparr>index = 0, fvalue = 0x3F800000\<rparr>], base_rowid = 5\<rparr> = 1 \<and>
   GetTranspose 1 1 (\<lambda>i. 0)
     \<lparr>offset = [0, 1], data = [\<lparr>index = 0, fvalue = 0x3F800000\<rparr>], base_rowid = 5\<rparr>
   = Inr \<lparr>offset = [0, 1], data = [\<lparr>index = 5, fvalue = 0x3F800000\<rparr>], base_rowid = 0\<rparr> \<and>
   GetTranspose 1 1 (\<lambda>i. 0)
     \<lparr>offset = [0, 1], data = [\<lparr>index = 5, fvalue = 0x3F800000\<rparr>], base_rowid = 0\<rparr>
   = Inl CheckFailed"
proof -
  let ?P = "\<lparr>offset = [0, 1], data = [\<lparr>index = 0, fvalue = 0x3F800000\<rparr>], base_rowid = 5\<rparr>"
  let ?T = "\<lparr>offset = [0, 1], data = [\<lparr>index = 5, fvalue = 0x3F800000\<rparr>], base_rowid = 0\<rparr>"
  have t1: "GetTranspose 1 1 (\<lambda>i. 0) ?P = Inr ?T" by code_simp
  have t2: "GetTranspose 1 1 (\<lambda>i. 0) ?T = Inl CheckFailed" by code_simp
  have s: "Size ?P = 1" by (simp add: Size_def)
  show ?thesis using s t1 t2 by simp
qed

section \<open>Correctness of appending an adapter batch\<close>

subsection \<open>Maxima, and the lines of the threads\<close>

lemma fold_max_init: "fold max xs (a::nat) = max a (fold max xs 0)"
proof (induction xs arbitrary: a)
  case Nil
  then show ?case by simp
next
  case (Cons x xs)
  have "fold max (x # xs) a = max (max x a) (fold max xs 0)"
    using Cons.IH [of "max x a"] by simp
  also have "\<dots> = max a (max x (fold max xs 0))" by (simp add: max.commute max.left_commute)
  also have "max x (fold max xs 0) = fold max (x # xs) 0"
    using Cons.IH [of "max x 0"] by simp
  finally show ?case .
qed

lemma lmax_Cons: "lmax (x # xs) = max x (lmax xs)"
  unfolding lmax_def using fold_max_init [of xs "max x 0"] by simp

lemma lmax_Nil: "lmax [] = 0"
  by (simp add: lmax_def)

lemma lmax_append: "lmax (xs @ ys) = max (lmax xs) (lmax ys)"
  by (induction xs) (simp_all add: lmax_Cons lmax_Nil max.assoc)

lemma lmax_update:
  "t < length xs \<Longrightarrow> lmax (xs[t := max (xs ! t) c]) = max c (lmax xs)"
proof (induction xs arbitrary: t)
  case Nil
  then show ?case by simp
next
  case (Cons x xs)
  show ?case
  proof (cases t)
    case 0
    then show ?thesis by (simp add: lmax_Cons max.commute max.left_commute)
  next
    case (Suc t')
    then show ?thesis using Cons by (simp add: lmax_Cons max.left_commute)
  qed
qed

lemma lmax_replicate_0: "lmax (replicate n 0) = 0"
  by (induction n) (simp_all add: lmax_Cons lmax_Nil)

lemma lmax_ge: "x \<in> set xs \<Longrightarrow> x \<le> lmax xs"
  by (induction xs) (auto simp: lmax_Cons)

lemma lmax_mem: "xs \<noteq> [] \<Longrightarrow> lmax xs \<in> set xs"
proof (induction xs)
  case Nil
  then show ?case by simp
next
  case (Cons x xs)
  show ?case
  proof (cases "xs = []")
    case True
    then show ?thesis by (simp add: lmax_Cons lmax_Nil)
  next
    case False
    then show ?thesis using Cons by (auto simp: lmax_Cons max_def)
  qed
qed

lemma lmax_Max: "xs \<noteq> [] \<Longrightarrow> lmax xs = Max (set xs)"
  using lmax_ge lmax_mem by (metis List.finite_set Max_eqI)

lemma fold_flip_max: "fold (\<lambda>m acc. max acc m) xs (0::nat) = lmax xs"
proof -
  have "(\<lambda>m acc. max acc m) = (max :: nat \<Rightarrow> nat \<Rightarrow> nat)" by (intro ext) (simp add: max.commute)
  then show ?thesis by (simp add: lmax_def)
qed

lemma concat_even_slices:
  "concat (map (\<lambda>tid. [tid * ts..<(tid + 1) * ts]) [0..<k]) = [0..<k * ts]"
proof (induction k)
  case 0
  then show ?case by simp
next
  case (Suc k)
  have "[0..<k * ts + ts] = [0..<k * ts] @ [k * ts..<k * ts + ts]"
    by (rule upt_add_eq_append) simp
  then show ?case using Suc by (simp add: add.commute)
qed

lemma thread_lines_cover:
  assumes "0 < n"
  shows "concat (map (thread_lines bs n (bs div n)) [0..<n]) = [0..<bs]"
proof -
  obtain k where n: "n = Suc k" using assms by (cases n) auto
  let ?ts = "bs div n"
  have le: "k * ?ts \<le> bs"
  proof -
    have "k * ?ts \<le> n * ?ts" using n by simp
    also have "\<dots> \<le> bs" by simp
    finally show ?thesis .
  qed
  have "map (thread_lines bs n ?ts) [0..<k] = map (\<lambda>tid. [tid * ?ts..<(tid + 1) * ?ts]) [0..<k]"
    by (rule map_cong) (auto simp: thread_lines_def n)
  then have "concat (map (thread_lines bs n ?ts) [0..<k]) = [0..<k * ?ts]"
    by (simp only: concat_even_slices)
  moreover have "thread_lines bs n ?ts k = [k * ?ts..<bs]"
    by (simp add: thread_lines_def n)
  moreover have "[0..<bs] = [0..<k * ?ts] @ [k * ?ts..<bs]"
    using le upt_add_eq_append [of 0 "k * ?ts" "bs - k * ?ts"] by simp
  ultimately show ?thesis by (simp add: n)
qed

lemma concat_map_nested:
  "concat (map (\<lambda>t. concat (map f (g t))) ts) = concat (map f (concat (map g ts)))"
  by (induction ts) auto

lemma map_snd_batch_elems:
  assumes "0 < n"
  shows "map snd (batch_elems batch n) = concat (lines batch)"
proof -
  have "map snd (batch_elems batch n)
        = concat (map (\<lambda>tid. concat (map (\<lambda>i. lines batch ! i)
             (thread_lines (length (lines batch)) n (length (lines batch) div n) tid))) [0..<n])"
    by (simp add: batch_elems_def map_concat comp_def)
  also have "\<dots> = concat (map (\<lambda>i. lines batch ! i)
             (concat (map (thread_lines (length (lines batch)) n (length (lines batch) div n)) [0..<n])))"
    by (rule concat_map_nested)
  also have "\<dots> = concat (lines batch)"
    unfolding thread_lines_cover [OF assms] by (simp add: map_nth)
  finally show ?thesis .
qed

lemma fst_batch_elems: "p \<in> set (batch_elems batch n) \<Longrightarrow> fst p < n"
  by (auto simp: batch_elems_def)

subsection \<open>The two passes\<close>

lemma first_pass_flat:
  "foldM (\<lambda>tid. foldM (\<lambda>i. foldM (first_pass_element missing b0 off tid) (lines batch ! i))
                    (thread_lines (length (lines batch)) n (length (lines batch) div n) tid)) [0..<n]
   = foldM (\<lambda>p. first_pass_element missing b0 off (fst p) (snd p)) (batch_elems batch n)"
  by (simp add: batch_elems_def foldM_concat foldM_map)

lemma second_pass_flat:
  "foldM (\<lambda>tid. foldM (\<lambda>i. foldM (second_pass_element missing b0 tid) (lines batch ! i))
                    (thread_lines (length (lines batch)) n (length (lines batch) div n) tid)) [0..<n]
   = foldM (\<lambda>p. second_pass_element missing b0 (fst p) (snd p)) (batch_elems batch n)"
  by (simp add: batch_elems_def foldM_concat foldM_map)

lemma first_pass_run:
  assumes "\<forall>p\<in>set xs. Size P \<le> elem_key P (snd p)"
      and "\<forall>p\<in>set xs. fst p < length (thread_rptr b)"
      and "base_row_offset b = Size P"
  shows "foldM (\<lambda>p. first_pass_element missing (base_rowid P) (Size P) (fst p) (snd p)) xs (v, mv, b)
         = Inr (v \<and> \<not> (\<not> isinf missing \<and> (\<exists>p\<in>set xs. isinf (cvalue (snd p)))),
                fold max_columns_step xs mv,
                b\<lparr>thread_rptr := fold count_rec (batch_recs missing P xs) (thread_rptr b)\<rparr>)"
  using assms
proof (induction xs arbitrary: v mv b)
  case Nil
  then show ?case by (simp add: batch_recs_def)
next
  case (Cons p xs)
  let ?key = "elem_key P (snd p)"
  let ?r = "(fst p, ?key - Size P, elem_entry (snd p))"
  let ?v = "(if \<not> isinf missing \<and> isinf (cvalue (snd p)) then False else v)"
  let ?b = "(if IsValidFunctor missing (snd p) then b\<lparr>thread_rptr := count_rec ?r (thread_rptr b)\<rparr> else b)"
  have key: "Size P \<le> ?key" using Cons.prems by simp
  have tid: "fst p < length (thread_rptr b)" using Cons.prems by simp
  have "AddBudget ?key (fst p) b = Inr (b\<lparr>thread_rptr := count_rec ?r (thread_rptr b)\<rparr>)"
    using AddBudget_count_rec [of ?r b] key tid Cons.prems(3) by simp
  then have step: "first_pass_element missing (base_rowid P) (Size P) (fst p) (snd p) (v, mv, b)
                   = Inr (?v, max_columns_step p mv, ?b)"
    using key by (simp add: first_pass_element_def Let_def elem_key_def IsValidFunctor_def
                            max_columns_step_def)
  have l: "length (thread_rptr ?b) = length (thread_rptr b)" by (simp add: length_count_rec)
  have ih: "foldM (\<lambda>p. first_pass_element missing (base_rowid P) (Size P) (fst p) (snd p)) xs
               (?v, max_columns_step p mv, ?b)
         = Inr (?v \<and> \<not> (\<not> isinf missing \<and> (\<exists>p\<in>set xs. isinf (cvalue (snd p)))),
                fold max_columns_step xs (max_columns_step p mv),
                ?b\<lparr>thread_rptr := fold count_rec (batch_recs missing P xs) (thread_rptr ?b)\<rparr>)"
    using Cons.prems by (intro Cons.IH) (simp_all add: l)
  have b: "?b\<lparr>thread_rptr := fold count_rec (batch_recs missing P xs) (thread_rptr ?b)\<rparr>
           = b\<lparr>thread_rptr := fold count_rec (batch_recs missing P (p # xs)) (thread_rptr b)\<rparr>"
    by (simp add: batch_recs_def)
  show ?case unfolding foldM.simps step sum.case ih b by auto
qed

lemma second_pass_run:
  assumes "\<forall>p\<in>set xs. Size P \<le> elem_key P (snd p)"
  shows "foldM (\<lambda>p. second_pass_element missing (base_rowid P) (fst p) (snd p)) xs b
         = foldM (place_rec (Size P)) (batch_recs missing P xs) b"
  using assms
proof (induction xs arbitrary: b)
  case Nil
  then show ?case by (simp add: batch_recs_def)
next
  case (Cons p xs)
  have key: "Size P \<le> elem_key P (snd p)" using Cons.prems by simp
  have ih: "\<And>b. foldM (\<lambda>p. second_pass_element missing (base_rowid P) (fst p) (snd p)) xs b
         = foldM (place_rec (Size P)) (batch_recs missing P xs) b"
    using Cons by simp
  show ?case
  proof (cases "IsValidFunctor missing (snd p)")
    case True
    then have "second_pass_element missing (base_rowid P) (fst p) (snd p) b
               = place_rec (Size P) (fst p, elem_key P (snd p) - Size P, elem_entry (snd p)) b"
      using key by (simp add: second_pass_element_def place_rec_def elem_key_def elem_entry_def Let_def)
    then show ?thesis using True ih by (simp add: batch_recs_def split: sum.splits)
  next
    case False
    then have "second_pass_element missing (base_rowid P) (fst p) (snd p) b = Inr b"
      by (simp add: second_pass_element_def Let_def)
    then show ?thesis using False ih by (simp add: batch_recs_def)
  qed
qed

lemma filter_thread_ordered:
  "filter (\<lambda>p. fst p = t) (concat (map (\<lambda>tid. map (Pair tid) (ys tid)) [0..<n]))
   = (if t < n then map (Pair t) (ys t) else [])"
proof (induction n)
  case 0
  then show ?case by simp
next
  case (Suc n)
  have "filter (\<lambda>p. fst p = t) (map (Pair n) (ys n)) = (if n = t then map (Pair n) (ys n) else [])"
    by (auto simp: filter_map comp_def)
  then show ?case using Suc by auto
qed

lemma ents_batch_recs:
  "ents (batch_recs missing P xs) t g
   = map elem_entry (filter (\<lambda>el. IsValidFunctor missing el \<and> elem_key P el - Size P = g)
                            (map snd (filter (\<lambda>p. fst p = t) xs)))"
  by (induction xs) (auto simp: ents_def batch_recs_def)

lemma group_block_thread_ordered:
  assumes "xs = concat (map (\<lambda>tid. map (Pair tid) (ys tid)) [0..<n])"
  shows "group_block (batch_recs missing P xs) n g
         = map elem_entry (filter (\<lambda>el. IsValidFunctor missing el \<and> elem_key P el - Size P = g)
                                  (map snd xs))"
proof -
  let ?Q = "\<lambda>el. IsValidFunctor missing el \<and> elem_key P el - Size P = g"
  have h: "map (\<lambda>t. ents (batch_recs missing P xs) t g) [0..<n]
        = map (\<lambda>t. map elem_entry (filter ?Q (ys t))) [0..<n]"
    by (rule map_cong) (auto simp: ents_batch_recs assms filter_thread_ordered comp_def)
  have "group_block (batch_recs missing P xs) n g
             = concat (map (\<lambda>t. map elem_entry (filter ?Q (ys t))) [0..<n])"
    unfolding group_block_def h by (rule refl)
  also have "\<dots> = map elem_entry (filter ?Q (concat (map ys [0..<n])))"
    by (simp add: map_concat filter_concat comp_def)
  also have "concat (map ys [0..<n]) = map snd xs"
    by (simp add: assms map_concat comp_def)
  finally show ?thesis .
qed

lemma batch_elems_thread_ordered:
  "batch_elems batch n = concat (map (\<lambda>tid. map (Pair tid)
       (concat (map (\<lambda>i. lines batch ! i)
          (thread_lines (length (lines batch)) n (length (lines batch) div n) tid)))) [0..<n])"
  by (simp add: batch_elems_def map_concat comp_def)

lemma ngroups_lmax: "ngroups tab = lmax (map length tab)"
  by (simp add: ngroups_def lmax_def)

lemma ngroups_count_rec:
  assumes "fst r < length tab"
  shows "ngroups (count_rec r tab) = max (fst (snd r) + 1) (ngroups tab)"
proof -
  have "map length (count_rec r tab)
        = (map length tab)[fst r := max (map length tab ! fst r) (fst (snd r) + 1)]"
    using assms by (simp add: count_rec_def map_update length_bump)
  then show ?thesis using assms lmax_update [of "fst r" "map length tab" "fst (snd r) + 1"]
    by (simp add: ngroups_lmax)
qed

lemma ngroups_fold_count:
  "\<forall>r\<in>set recs. fst r < length tab \<Longrightarrow>
   ngroups (fold count_rec recs tab) = max (ngroups tab) (lmax (map (\<lambda>r. fst (snd r) + 1) recs))"
proof (induction recs arbitrary: tab)
  case Nil
  then show ?case by (simp add: lmax_Nil)
next
  case (Cons r recs)
  have "\<forall>x\<in>set recs. fst x < length (count_rec r tab)"
    using Cons.prems by (simp add: length_count_rec)
  then have "ngroups (fold count_rec recs (count_rec r tab))
      = max (ngroups (count_rec r tab)) (lmax (map (\<lambda>r. fst (snd r) + 1) recs))"
    by (rule Cons.IH)
  then show ?case using Cons.prems
    by (simp add: ngroups_count_rec lmax_Cons max.assoc max.commute max.left_commute)
qed

lemma ngroups_replicate: "0 < n \<Longrightarrow> ngroups (replicate n (replicate m 0)) = m"
  by (rule ngroups_const) auto

lemma keys_batch_recs:
  "map (\<lambda>r. fst (snd r) + 1) (batch_recs missing P xs)
   = map (\<lambda>el. elem_key P el - Size P + 1) (filter (IsValidFunctor missing) (map snd xs))"
  by (induction xs) (auto simp: batch_recs_def)

lemma lmax_max_columns:
  "\<forall>p\<in>set xs. fst p < length mv \<Longrightarrow>
   lmax (fold max_columns_step xs mv)
     = max (lmax mv) (lmax (map (\<lambda>el. (column_idx el + 1) mod 2 ^ 64) (map snd xs)))"
proof (induction xs arbitrary: mv)
  case Nil
  then show ?case by (simp add: lmax_Nil)
next
  case (Cons p xs)
  have "\<forall>x\<in>set xs. fst x < length (max_columns_step p mv)"
    using Cons.prems by (simp add: max_columns_step_def)
  then have "lmax (fold max_columns_step xs (max_columns_step p mv))
     = max (lmax (max_columns_step p mv)) (lmax (map (\<lambda>el. (column_idx el + 1) mod 2 ^ 64) (map snd xs)))"
    by (rule Cons.IH)
  moreover have "lmax (max_columns_step p mv) = max ((column_idx (snd p) + 1) mod 2 ^ 64) (lmax mv)"
    using Cons.prems by (simp add: max_columns_step_def lmax_update)
  ultimately show ?case
    by (simp add: lmax_Cons max.assoc max.commute max.left_commute)
qed

subsection \<open>The page after the call\<close>

lemma Push_batch_threads:
  assumes n: "(if kIsRowMajor batch then nthread else 1) = n" and nt: "0 < n"
      and ne: "lines batch \<noteq> []"
      and keys: "\<forall>el\<in>set (concat (lines batch)). Size P \<le> elem_key P el"
  shows "Push_batch batch missing nthread P =
           (if inf_in_data missing batch then Inl InfInData
            else Inr (batch_max_columns batch, pushed_page missing P batch))"
proof -
  let ?xs = "batch_elems batch n"
  let ?recs = "batch_recs missing P ?xs"
  let ?m = "expected_rows P batch"
  let ?b0 = "new_builder (offset P) (data P) (Size P)"
  let ?b1 = "InitBudget ?m n ?b0"
  let ?T = "fold count_rec ?recs (replicate n (replicate ?m 0))"
  let ?b2 = "?b1\<lparr>thread_rptr := ?T\<rparr>"
  have snd_xs: "map snd ?xs = concat (lines batch)" by (rule map_snd_batch_elems [OF nt])
  have set_xs: "snd ` set ?xs = set (concat (lines batch))"
    using snd_xs by (metis set_map)
  have keys': "\<forall>p\<in>set ?xs. Size P \<le> elem_key P (snd p)"
  proof
    fix p assume "p \<in> set ?xs"
    then have "snd p \<in> snd ` set ?xs" by (rule imageI)
    then have "snd p \<in> set (concat (lines batch))" unfolding set_xs .
    then show "Size P \<le> elem_key P (snd p)" using keys by blast
  qed
  have tab1: "thread_rptr ?b1 = replicate n (replicate ?m 0)" by (simp add: InitBudget_def)
  have tids: "\<forall>p\<in>set ?xs. fst p < length (thread_rptr ?b1)"
    using fst_batch_elems by (simp add: tab1)
  have base1: "base_row_offset ?b1 = Size P" by (simp add: InitBudget_def new_builder_def)
  have inf: "(\<not> isinf missing \<and> (\<exists>p\<in>set ?xs. isinf (cvalue (snd p)))) = inf_in_data missing batch"
  proof -
    have "(\<exists>p\<in>set ?xs. isinf (cvalue (snd p))) = (\<exists>el\<in>snd ` set ?xs. isinf (cvalue el))"
      by blast
    then show ?thesis unfolding set_xs by (simp add: inf_in_data_def list_ex_iff)
  qed
  have pass1: "foldM (\<lambda>p. first_pass_element missing (base_rowid P) (Size P) (fst p) (snd p)) ?xs
                 (True, replicate n 0, ?b1)
               = Inr (\<not> inf_in_data missing batch, fold max_columns_step ?xs (replicate n 0), ?b2)"
    using first_pass_run [OF keys' tids base1, of missing True "replicate n 0"] inf
    by (simp add: tab1)
  have maxc: "fold (\<lambda>m acc. max acc m) (fold max_columns_step ?xs (replicate n 0)) 0
              = batch_max_columns batch"
    using lmax_max_columns [of ?xs "replicate n 0"] fst_batch_elems [of _ batch n]
    by (simp add: fold_flip_max lmax_replicate_0 snd_xs batch_max_columns_def)
  have rtids: "\<forall>r\<in>set ?recs. fst r < n"
    using fst_batch_elems [of _ batch n] by (auto simp: batch_recs_def)
  from builder_correct [OF tab1 rtids] obtain b2' b4 where
    c1: "foldM (budget_rec (base_row_offset ?b1)) ?recs ?b1 = Inr b2'"
    and c2: "foldM (place_rec (base_row_offset ?b1)) ?recs (InitStorage b2') = Inr b4"
    and r4: "rptr b4 = rptr ?b1 @
        map (\<lambda>g. last_or_0 (rptr ?b1) + length (concat (map (group_block ?recs n) [0..<Suc g])))
            [0..<ngroups ?T]"
    and d4: "gdata b4 = resize (last_or_0 (rptr ?b1)) default_Entry (gdata ?b1)
                @ concat (map (group_block ?recs n) [0..<ngroups ?T])"
    by blast
  have "foldM (budget_rec (base_row_offset ?b1)) ?recs ?b1 = Inr ?b2"
    using count_pass [of ?recs ?b1] rtids by (simp add: tab1)
  then have b2': "b2' = ?b2" using c1 by simp
  have pass2: "foldM (\<lambda>p. second_pass_element missing (base_rowid P) (fst p) (snd p)) ?xs
                 (InitStorage ?b2) = Inr b4"
    using second_pass_run [OF keys', of missing "InitStorage ?b2"] c2 b2' base1 by simp
  have blocks: "group_block ?recs n = batch_row missing P batch"
  proof
    fix g
    show "group_block ?recs n g = batch_row missing P batch g"
      using group_block_thread_ordered [OF batch_elems_thread_ordered, of missing P batch n g]
      by (simp add: snd_xs batch_row_def)
  qed
  have G: "ngroups ?T = batch_nrows missing P batch"
  proof -
    have k: "map (\<lambda>r. fst (snd r) + 1) ?recs
             = map (\<lambda>el. elem_key P el - Size P + 1)
                   (filter (IsValidFunctor missing) (concat (lines batch)))"
      unfolding keys_batch_recs snd_xs ..
    have "ngroups ?T = max (ngroups (replicate n (replicate ?m 0)))
                           (lmax (map (\<lambda>r. fst (snd r) + 1) ?recs))"
      by (rule ngroups_fold_count) (use rtids in simp)
    then show ?thesis unfolding k ngroups_replicate [OF nt] batch_nrows_def .
  qed
  have page: "P\<lparr>offset := rptr b4, data := gdata b4\<rparr> = pushed_page missing P batch"
    unfolding r4 d4 blocks G by (simp add: pushed_page_def InitBudget_def new_builder_def)
  have len: "length (lines batch) \<noteq> 0" using ne by simp
  have n0: "n \<noteq> 0" using nt by simp
  show ?thesis
    unfolding Push_batch_def Let_def n first_pass_flat second_pass_flat
    unfolding expected_rows_def [symmetric]
    using len n0 pass1 pass2 maxc page
    by (simp add: expected_rows_def)
qed

lemma Push_batch_result:
  assumes thr: "kIsRowMajor batch \<longrightarrow> 0 < nthread"
      and ne: "lines batch \<noteq> []"
      and keys: "\<forall>el\<in>set (concat (lines batch)). Size P \<le> elem_key P el"
  shows "Push_batch batch missing nthread P =
           (if inf_in_data missing batch then Inl InfInData
            else Inr (batch_max_columns batch, pushed_page missing P batch))"
proof -
  have "0 < (if kIsRowMajor batch then nthread else 1)" using thr by simp
  from Push_batch_threads [OF refl this ne keys] show ?thesis .
qed

lemma inf_in_data_no_lines: "lines batch = [] \<Longrightarrow> \<not> inf_in_data missing batch"
  by (simp add: inf_in_data_def)

lemma sub64_minus:
  assumes "b \<le> a" "a < 2 ^ 64"
  shows "sub64 a b = a - b"
proof -
  have "(2::nat) ^ 64 + a - b = (a - b) + 2 ^ 64" using assms(1) by simp
  then have "sub64 a b = ((a - b) + 2 ^ 64) mod 2 ^ 64" unfolding sub64_def by (rule arg_cong)
  also have "\<dots> = (a - b) mod 2 ^ 64" by (rule mod_add_self2)
  also have "\<dots> = a - b" using assms(2) by (intro mod_less) simp
  finally show ?thesis .
qed

lemma elem_key_rows:
  assumes "base_rowid P + Size P \<le> row_idx el" "row_idx el < 2 ^ 64"
  shows "Size P \<le> elem_key P el"
proof -
  have "sub64 (row_idx el) (base_rowid P) = row_idx el - base_rowid P"
    using assms by (intro sub64_minus) simp_all
  then show ?thesis using assms(1) by (simp add: elem_key_def)
qed

lemma first_pass_result:
  assumes thr: "kIsRowMajor batch \<longrightarrow> 0 < nthread"
      and keys: "\<forall>el\<in>set (concat (lines batch)). Size P \<le> elem_key P el"
  shows "\<exists>mv b. first_pass batch missing nthread P = Inr (\<not> inf_in_data missing batch, mv, b)"
proof -
  let ?n = "if kIsRowMajor batch then nthread else 1"
  let ?xs = "batch_elems batch ?n"
  let ?b1 = "InitBudget (expected_rows P batch) ?n (new_builder (offset P) (data P) (Size P))"
  have nt: "0 < ?n" using thr by simp
  have snd_xs: "map snd ?xs = concat (lines batch)" by (rule map_snd_batch_elems [OF nt])
  have set_xs: "snd ` set ?xs = set (concat (lines batch))"
    using snd_xs by (metis set_map)
  have keys': "\<forall>p\<in>set ?xs. Size P \<le> elem_key P (snd p)"
  proof
    fix p assume "p \<in> set ?xs"
    then have "snd p \<in> snd ` set ?xs" by (rule imageI)
    then have "snd p \<in> set (concat (lines batch))" unfolding set_xs .
    then show "Size P \<le> elem_key P (snd p)" using keys by blast
  qed
  have tab1: "thread_rptr ?b1 = replicate ?n (replicate (expected_rows P batch) 0)"
    by (simp add: InitBudget_def)
  have tids: "\<forall>p\<in>set ?xs. fst p < length (thread_rptr ?b1)"
    using fst_batch_elems unfolding tab1 by simp
  have base1: "base_row_offset ?b1 = Size P" by (simp add: InitBudget_def new_builder_def)
  have inf: "(\<not> isinf missing \<and> (\<exists>p\<in>set ?xs. isinf (cvalue (snd p)))) = inf_in_data missing batch"
  proof -
    have "(\<exists>p\<in>set ?xs. isinf (cvalue (snd p))) = (\<exists>el\<in>snd ` set ?xs. isinf (cvalue el))"
      by blast
    then show ?thesis unfolding set_xs by (simp add: inf_in_data_def list_ex_iff)
  qed
  have "first_pass batch missing nthread P
        = foldM (\<lambda>p. first_pass_element missing (base_rowid P) (Size P) (fst p) (snd p)) ?xs
            (True, replicate ?n 0, ?b1)"
    unfolding first_pass_def Let_def first_pass_flat ..
  also have "\<dots> = Inr (True \<and> \<not> (\<not> isinf missing \<and> (\<exists>p\<in>set ?xs. isinf (cvalue (snd p)))),
                        fold max_columns_step ?xs (replicate ?n 0),
                        ?b1\<lparr>thread_rptr := fold count_rec (batch_recs missing P ?xs) (thread_rptr ?b1)\<rparr>)"
    by (rule first_pass_run [OF keys' tids base1])
  finally show ?thesis unfolding inf by simp
qed

lemma Push_batch_invalid:
  assumes "lines batch \<noteq> []" "kIsRowMajor batch \<longrightarrow> 0 < nthread"
      and "first_pass batch missing nthread P = Inr (False, mv, b)"
  shows "Push_batch batch missing nthread P = Inl InfInData"
  using assms unfolding Push_batch_def first_pass_def expected_rows_def Let_def
  by (simp split: if_splits)

text \<open>
  Claim C2, as amended. For a batch none of whose tuples has a row before the rows the
  page already has (the first pass checks it for every tuple), appended with at least
  one thread, the append fails if and only if the missing sentinel is not infinite (it
  is a finite number or a NaN) and some tuple of the batch has an infinite value; with
  an infinite sentinel, infinite values do not make it fail. When it fails, it fails
  with the admissibility error, and after the first pass has run over the slices of all
  threads: the flag that the pass leaves is what makes it fail.
\<close>

theorem Push_batch_fails_iff:
  assumes "kIsRowMajor batch \<longrightarrow> 0 < nthread"
      and "\<forall>el\<in>set (concat (lines batch)).
             base_rowid P + Size P \<le> row_idx el \<and> row_idx el < 2 ^ 64"
  shows "((\<exists>e. Push_batch batch missing nthread P = Inl e) \<longleftrightarrow>
            (\<not> isinf missing \<and> (\<exists>el\<in>set (concat (lines batch)). isinf (cvalue el)))) \<and>
         (\<forall>e. Push_batch batch missing nthread P = Inl e \<longrightarrow>
            e = InfInData \<and> (\<exists>mv b. first_pass batch missing nthread P = Inr (False, mv, b)))"
proof (cases "lines batch = []")
  case True
  then show ?thesis by (simp add: Push_batch_def Let_def)
next
  case False
  have keys: "\<forall>el\<in>set (concat (lines batch)). Size P \<le> elem_key P el"
    using assms(2) by (auto intro: elem_key_rows)
  have i: "inf_in_data missing batch
        = (\<not> isinf missing \<and> (\<exists>el\<in>set (concat (lines batch)). isinf (cvalue el)))"
    by (simp add: inf_in_data_def list_ex_iff)
  from first_pass_result [OF assms(1) keys, of missing] obtain mv b where
    "first_pass batch missing nthread P = Inr (\<not> inf_in_data missing batch, mv, b)" by blast
  then have "\<exists>mv b. first_pass batch missing nthread P = Inr (False, mv, b)"
    if "inf_in_data missing batch" using that by auto
  then show ?thesis
    using Push_batch_result [OF assms(1) False keys, of missing] unfolding i by auto
qed

theorem Push_batch_fails_iff_witness:
  "Push_batch inf_batch 0 1 empty_page = Inl InfInData \<and>
   (\<exists>mv b. first_pass inf_batch 0 1 empty_page = Inr (False, mv, b))"
proof -
  have thr: "kIsRowMajor inf_batch \<longrightarrow> 0 < (1::nat)" by simp
  have keys: "\<forall>el\<in>set (concat (lines inf_batch)).
                base_rowid empty_page + Size empty_page \<le> row_idx el \<and> row_idx el < 2 ^ 64"
    by (simp add: Size_def empty_page_def inf_batch_def)
  have c: "\<not> isinf 0 \<and> (\<exists>el\<in>set (concat (lines inf_batch)). isinf (cvalue el))"
    by (simp add: isinf_def inf_batch_def)
  from Push_batch_fails_iff [OF thr keys, of 0] c show ?thesis by blast
qed

text \<open>
  The claim as stated fails in three ways. On a batch whose row lies before the rows the
  page already has (the page has one row, the tuple is for row 0), the append fails in
  \<^verbatim>\<open>CHECK_GE(key, builder_base_row_offset)\<close> although no value is infinite. With a NaN
  as the missing sentinel, which is not a finite number, an infinite value makes the
  append fail: the test is \<^verbatim>\<open>!std::isinf(missing)\<close>. And with a thread count of 0 a
  row-major append divides by zero.
\<close>

theorem Push_batch_fails_iff_counterexample:
  "Push_batch \<lparr>lines = [[\<lparr>row_idx = 0, column_idx = 0, cvalue = 0x3F800000\<rparr>]], kIsRowMajor = True\<rparr>
     0 1 \<lparr>offset = [0, 0], data = [], base_rowid = 0\<rparr> = Inl KeyBelowBase \<and>
   \<not> isinf 0x3F800000 \<and>
   \<not> isfinite 0x7FC00000 \<and> \<not> isinf 0x7FC00000 \<and>
   Push_batch inf_batch 0x7FC00000 1 empty_page = Inl InfInData \<and>
   Push_batch \<lparr>lines = [[\<lparr>row_idx = 0, column_idx = 0, cvalue = 0x3F800000\<rparr>]], kIsRowMajor = True\<rparr>
     0 0 empty_page = Inl Undefined"
proof -
  have s: "sub64 0 0 = 0" by (simp add: sub64_def)
  have k: "Push_batch \<lparr>lines = [[\<lparr>row_idx = 0, column_idx = 0, cvalue = 0x3F800000\<rparr>]], kIsRowMajor = True\<rparr>
     0 1 \<lparr>offset = [0, 0], data = [], base_rowid = 0\<rparr> = Inl KeyBelowBase"
    by (simp add: Push_batch_def Let_def thread_lines_def first_pass_element_def s Size_def
          new_builder_def InitBudget_def)
  have thr: "kIsRowMajor inf_batch \<longrightarrow> 0 < (1::nat)" by simp
  have ne: "lines inf_batch \<noteq> []" by (simp add: inf_batch_def)
  have keys: "\<forall>el\<in>set (concat (lines inf_batch)). Size empty_page \<le> elem_key empty_page el"
    by (simp add: Size_def empty_page_def)
  have "inf_in_data 0x7FC00000 inf_batch"
    by (simp add: inf_in_data_def isinf_def inf_batch_def)
  then have n: "Push_batch inf_batch 0x7FC00000 1 empty_page = Inl InfInData"
    using Push_batch_result [OF thr ne keys, of "0x7FC00000"] by simp
  have z: "Push_batch \<lparr>lines = [[\<lparr>row_idx = 0, column_idx = 0, cvalue = 0x3F800000\<rparr>]], kIsRowMajor = True\<rparr>
     0 0 empty_page = Inl Undefined"
    by (simp add: Push_batch_def Let_def)
  have "\<not> isinf 0x3F800000" "\<not> isfinite 0x7FC00000" "\<not> isinf 0x7FC00000"
    by (simp_all add: isinf_def isfinite_def)
  with k n z show ?thesis by simp
qed

lemma max_columns_Max:
  assumes "xs \<noteq> []" "\<forall>el\<in>set xs. column_idx el + 1 < 2 ^ 64"
  shows "lmax (map (\<lambda>el. (column_idx el + 1) mod 2 ^ 64) xs) = Max (column_idx ` set xs) + 1"
proof -
  have "map (\<lambda>el. (column_idx el + 1) mod 2 ^ 64) xs = map (\<lambda>el. column_idx el + 1) xs"
    by (rule map_cong) (use assms(2) in auto)
  then have "lmax (map (\<lambda>el. (column_idx el + 1) mod 2 ^ 64) xs)
             = Max (set (map (\<lambda>el. column_idx el + 1) xs))"
    using assms(1) by (simp only: lmax_Max map_is_Nil_conv not_False_eq_True)
  also have "set (map (\<lambda>el. column_idx el + 1) xs) = (\<lambda>c. c + 1) ` (column_idx ` set xs)"
    by (simp add: image_image)
  also have "Max \<dots> = Max (column_idx ` set xs) + 1"
    using assms(1) by (subst mono_Max_commute [symmetric]) (auto simp: mono_def)
  finally show ?thesis .
qed

text \<open>
  Claim C5, as amended. An append of a batch with at least one tuple returns the
  largest column index over all tuples of the batch, valid or not, plus 1, when the
  append does not fail and the increment does not wrap: there is at least one thread, no
  tuple has a row before the rows the page already has, no value is infinite unless
  the sentinel is infinite, and the column indices are below \<open>2\<^sup>6\<^sup>4 - 1\<close>.
\<close>

theorem Push_batch_returns_max_column:
  assumes "kIsRowMajor batch \<longrightarrow> 0 < nthread"
      and "concat (lines batch) \<noteq> []"
      and "\<forall>el\<in>set (concat (lines batch)).
             base_rowid P + Size P \<le> row_idx el \<and> row_idx el < 2 ^ 64"
      and "\<not> (\<not> isinf missing \<and> (\<exists>el\<in>set (concat (lines batch)). isinf (cvalue el)))"
      and "\<forall>el\<in>set (concat (lines batch)). column_idx el + 1 < 2 ^ 64"
  shows "\<exists>P'. Push_batch batch missing nthread P
              = Inr (Max (column_idx ` set (concat (lines batch))) + 1, P')"
proof -
  have ne: "lines batch \<noteq> []" using assms(2) by auto
  have keys: "\<forall>el\<in>set (concat (lines batch)). Size P \<le> elem_key P el"
    using assms(3) by (auto intro: elem_key_rows)
  have "\<not> inf_in_data missing batch" using assms(4) by (simp add: inf_in_data_def list_ex_iff)
  then have "Push_batch batch missing nthread P
             = Inr (batch_max_columns batch, pushed_page missing P batch)"
    using Push_batch_result [OF assms(1) ne keys, of missing] by simp
  moreover have "batch_max_columns batch = Max (column_idx ` set (concat (lines batch))) + 1"
    unfolding batch_max_columns_def by (rule max_columns_Max [OF assms(2,5)])
  ultimately show ?thesis by simp
qed

theorem Push_batch_returns_max_column_witness:
  "Max (column_idx ` set (concat (lines example_batch))) + 1 = 4 \<and>
   (\<exists>P'. Push_batch example_batch 0 2 empty_page = Inr (4, P'))"
proof -
  have thr: "kIsRowMajor example_batch \<longrightarrow> 0 < (2::nat)" by simp
  have ne: "concat (lines example_batch) \<noteq> []" by (simp add: example_batch_def)
  have keys: "\<forall>el\<in>set (concat (lines example_batch)).
                base_rowid empty_page + Size empty_page \<le> row_idx el \<and> row_idx el < 2 ^ 64"
    by (simp add: Size_def empty_page_def example_batch_def)
  have ni: "\<not> (\<not> isinf 0 \<and> (\<exists>el\<in>set (concat (lines example_batch)). isinf (cvalue el)))"
    by (simp add: isinf_def example_batch_def)
  have cols: "\<forall>el\<in>set (concat (lines example_batch)). column_idx el + 1 < 2 ^ 64"
    by (simp add: example_batch_def)
  have m: "Max (column_idx ` set (concat (lines example_batch))) + 1 = 4"
    by (simp add: example_batch_def)
  from Push_batch_returns_max_column [OF thr ne keys ni cols] m show ?thesis by simp
qed

text \<open>
  The claim as stated, for every batch with a tuple, fails in four ways. With the
  column indices \<open>2\<^sup>6\<^sup>4 - 1\<close> and 5 the append returns 6: the increment of the first
  wraps to 0. An infinite value under a NaN sentinel, and a tuple for row 1 on a page
  that has two rows, make the append fail, so that it returns nothing. And with a
  thread count of 0 a row-major append divides by zero.
\<close>

theorem Push_batch_returns_max_column_counterexample:
  "(\<exists>P'. Push_batch wrap_batch 0 1 empty_page = Inr (6, P')) \<and>
   Max (column_idx ` set (concat (lines wrap_batch))) + 1 = 18446744073709551616 \<and>
   Push_batch \<lparr>lines = [[\<lparr>row_idx = 0, column_idx = 0, cvalue = 0x3F800000\<rparr>,
                          \<lparr>row_idx = 0, column_idx = 3, cvalue = 0xFF800000\<rparr>]], kIsRowMajor = True\<rparr>
     0x7FC00000 1 empty_page = Inl InfInData \<and>
   Push_batch \<lparr>lines = [[\<lparr>row_idx = 1, column_idx = 4, cvalue = 0x3F800000\<rparr>]], kIsRowMajor = True\<rparr>
     0 1 \<lparr>offset = [0, 1, 2], data = [\<lparr>index = 0, fvalue = 0x3F800000\<rparr>,
            \<lparr>index = 1, fvalue = 0x40000000\<rparr>], base_rowid = 0\<rparr> = Inl KeyBelowBase \<and>
   Push_batch wrap_batch 0 0 empty_page = Inl Undefined"
proof -
  let ?ib = "\<lparr>lines = [[\<lparr>row_idx = 0, column_idx = 0, cvalue = 0x3F800000\<rparr>,
                          \<lparr>row_idx = 0, column_idx = 3, cvalue = 0xFF800000\<rparr>]], kIsRowMajor = True\<rparr>"
  have thr: "kIsRowMajor wrap_batch \<longrightarrow> 0 < (1::nat)" by simp
  have ne: "lines wrap_batch \<noteq> []" by (simp add: wrap_batch_def)
  have keys: "\<forall>el\<in>set (concat (lines wrap_batch)). Size empty_page \<le> elem_key empty_page el"
    by (simp add: Size_def empty_page_def)
  have i: "\<not> inf_in_data 0 wrap_batch" by (simp add: inf_in_data_def isinf_def wrap_batch_def)
  have m: "batch_max_columns wrap_batch = 6"
    by (simp add: batch_max_columns_def lmax_Cons lmax_Nil wrap_batch_def)
  have w: "\<exists>P'. Push_batch wrap_batch 0 1 empty_page = Inr (6, P')"
    using Push_batch_result [OF thr ne keys, of 0] i m by simp
  have x: "Max (column_idx ` set (concat (lines wrap_batch))) + 1 = 18446744073709551616"
    by (simp add: wrap_batch_def)
  have thr': "kIsRowMajor ?ib \<longrightarrow> 0 < (1::nat)" by simp
  have ne': "lines ?ib \<noteq> []" by simp
  have keys': "\<forall>el\<in>set (concat (lines ?ib)). Size empty_page \<le> elem_key empty_page el"
    by (simp add: Size_def empty_page_def)
  have "inf_in_data 0x7FC00000 ?ib" by (simp add: inf_in_data_def isinf_def)
  then have n: "Push_batch ?ib 0x7FC00000 1 empty_page = Inl InfInData"
    using Push_batch_result [OF thr' ne' keys', of "0x7FC00000"] by simp
  have s: "sub64 (Suc 0) 0 = Suc 0" by (simp add: sub64_def)
  have k: "Push_batch \<lparr>lines = [[\<lparr>row_idx = 1, column_idx = 4, cvalue = 0x3F800000\<rparr>]], kIsRowMajor = True\<rparr>
     0 1 \<lparr>offset = [0, 1, 2], data = [\<lparr>index = 0, fvalue = 0x3F800000\<rparr>,
            \<lparr>index = 1, fvalue = 0x40000000\<rparr>], base_rowid = 0\<rparr> = Inl KeyBelowBase"
    by (simp add: Push_batch_def Let_def thread_lines_def first_pass_element_def s Size_def
          new_builder_def InitBudget_def)
  have z: "Push_batch wrap_batch 0 0 empty_page = Inl Undefined"
    by (simp add: Push_batch_def Let_def wrap_batch_def)
  from w x n k z show ?thesis by simp
qed

text \<open>
  Claim C4. Appending to an empty page the one-row batch with the values 1.0, NaN, 0.0
  and 0.0 at the columns 0 to 3, with missing sentinel 0.0 and any positive number of
  threads, gives a page of one row that holds exactly the entry (column 0, value 1.0):
  the NaN and the two values equal to the sentinel are left out.
\<close>

theorem Push_batch_example:
  "Push_batch example_batch 0 (Suc n) empty_page
   = Inr (4, \<lparr>offset = [0, 1], data = [\<lparr>index = 0, fvalue = 0x3F800000\<rparr>], base_rowid = 0\<rparr>) \<and>
   Size \<lparr>offset = [0, 1], data = [\<lparr>index = 0, fvalue = 0x3F800000\<rparr>], base_rowid = 0\<rparr> = 1 \<and>
   inst \<lparr>offset = [0, 1], data = [\<lparr>index = 0, fvalue = 0x3F800000\<rparr>], base_rowid = 0\<rparr> 0
     = [\<lparr>index = 0, fvalue = 0x3F800000\<rparr>]"
proof -
  let ?b = example_batch
  have thr: "kIsRowMajor ?b \<longrightarrow> 0 < Suc n" by simp
  have ne: "lines ?b \<noteq> []" by (simp add: example_batch_def)
  have keys: "\<forall>el\<in>set (concat (lines ?b)). Size empty_page \<le> elem_key empty_page el"
    by (simp add: Size_def empty_page_def)
  have i: "\<not> inf_in_data 0 ?b" by (simp add: inf_in_data_def isinf_def example_batch_def)
  have m: "batch_max_columns ?b = 4"
    by (simp add: batch_max_columns_def lmax_Cons lmax_Nil example_batch_def)
  have g: "batch_nrows 0 empty_page ?b = 1"
    by (simp add: batch_nrows_def expected_rows_def lmax_Cons lmax_Nil IsValidFunctor_def
          CheckNAN_def float_eq_def elem_key_def sub64_def Size_def empty_page_def
          example_batch_def)
  have r: "batch_row 0 empty_page ?b 0 = [\<lparr>index = 0, fvalue = 0x3F800000\<rparr>]"
    by (simp add: batch_row_def IsValidFunctor_def CheckNAN_def float_eq_def elem_key_def
          sub64_def elem_entry_def Size_def empty_page_def example_batch_def)
  have p: "pushed_page 0 empty_page ?b
           = \<lparr>offset = [0, 1], data = [\<lparr>index = 0, fvalue = 0x3F800000\<rparr>], base_rowid = 0\<rparr>"
    unfolding pushed_page_def g
    by (simp add: r) (simp add: empty_page_def last_or_0_def resize_def)
  show ?thesis
    using Push_batch_result [OF thr ne keys, of 0] i m p
    by (simp add: Size_def inst_def)
qed

lemma Reindex_shape: "shape_invariant (Reindex f P) = shape_invariant P"
  by (simp add: shape_invariant_def Reindex_def Size_def)

lemma Push_page_shape:
  assumes "shape_invariant P" "shape_invariant B" "hd (offset B) = 0"
  shows "\<exists>P'. Push_page B P = Inr P' \<and> shape_invariant P'"
proof -
  have p: "offset P \<noteq> []" "length (data P) = last (offset P)"
    using assms(1) by (simp_all add: shape_invariant_def)
  obtain x xs where ob: "offset B = x # xs" using assms(2) by (cases "offset B") (auto simp: shape_invariant_def)
  have "length (data B) = last (x # xs)" using assms(2) ob by (simp add: shape_invariant_def)
  moreover have "x = 0" using assms(3) ob by simp
  ultimately have "length (data P) + length (data B)
        = last (offset P @ map (\<lambda>y. last (offset P) + y) xs)"
    using p by (cases "xs = []") (simp_all add: last_map)
  then show ?thesis
    using Push_page_result [OF p, of B] p ob by (simp add: shape_invariant_def Size_def)
qed

lemma pushed_page_shaped:
  assumes "offset P \<noteq> []" "length (data P) = last (offset P)"
  shows "pushed_page missing P batch =
     P\<lparr>offset := offset P @
          map (\<lambda>g. length (data P) + length (concat (map (batch_row missing P batch) [0..<Suc g])))
              [0..<batch_nrows missing P batch],
       data := data P @ concat (map (batch_row missing P batch) [0..<batch_nrows missing P batch])\<rparr>"
  using assms by (simp add: pushed_page_def last_or_0_def resize_def)

lemma pushed_page_shape:
  assumes "offset P \<noteq> []" "length (data P) = last (offset P)"
  shows "shape_invariant (pushed_page missing P batch)"
proof (cases "batch_nrows missing P batch")
  case 0
  then show ?thesis using assms
    by (simp add: shape_invariant_def pushed_page_shaped [OF assms] Size_def)
next
  case (Suc G)
  then show ?thesis using assms
    by (simp add: shape_invariant_def pushed_page_shaped [OF assms] Size_def del: upt_Suc)
       (simp add: length_concat_upto)
qed

lemma Push_batch_shape:
  assumes "kIsRowMajor batch \<longrightarrow> 0 < nthread"
      and "\<forall>el\<in>set (concat (lines batch)). Size P \<le> elem_key P el"
      and "shape_invariant P"
      and "Push_batch batch missing nthread P = Inr (r, P')"
  shows "shape_invariant P'"
proof (cases "lines batch = []")
  case True
  then show ?thesis using assms(3,4) by (simp add: Push_batch_def Let_def)
next
  case False
  have p: "offset P \<noteq> []" "length (data P) = last (offset P)"
    using assms(3) by (simp_all add: shape_invariant_def)
  have "P' = pushed_page missing P batch"
    using Push_batch_result [OF assms(1) False assms(2), of missing] assms(4)
    by (simp split: if_splits)
  then show ?thesis using pushed_page_shape [OF p] by simp
qed

lemma Size_pushed_page:
  "offset P \<noteq> [] \<Longrightarrow> Size (pushed_page missing P batch) = Size P + batch_nrows missing P batch"
  by (cases "offset P") (simp_all add: pushed_page_def Size_def)

lemma inst_pushed_page:
  assumes "offset P \<noteq> []" "length (data P) = last (offset P)"
      and g: "g < batch_nrows missing P batch"
  shows "inst (pushed_page missing P batch) (Size P + g) = batch_row missing P batch g"
proof -
  let ?row = "batch_row missing P batch"
  let ?G = "batch_nrows missing P batch"
  let ?L = "length (data P)"
  let ?new = "map (\<lambda>g. ?L + length (concat (map ?row [0..<Suc g]))) [0..<?G]"
  have lo: "length (offset P) = Size P + 1" using assms(1) by (simp add: Size_def)
  note pushed_page_def = pushed_page_shaped [OF assms(1,2)]
  have o2: "offset (pushed_page missing P batch) ! (Size P + g + 1)
            = ?L + length (concat (map ?row [0..<Suc g]))"
    using g lo by (simp add: pushed_page_def nth_append del: upt_Suc)
  have o1: "offset (pushed_page missing P batch) ! (Size P + g)
            = ?L + length (concat (map ?row [0..<g]))"
  proof (cases g)
    case 0
    have "(offset P @ ?new) ! Size P = last (offset P)"
      using lo assms(1) by (simp add: nth_append last_conv_nth)
    then show ?thesis using 0 assms(2) by (simp add: pushed_page_def)
  next
    case (Suc g')
    have "(offset P @ ?new) ! (Size P + Suc g') = ?new ! g'"
      using lo by (simp add: nth_append)
    also have "\<dots> = ?L + length (concat (map ?row [0..<Suc g']))"
      using g Suc by (simp del: upt_Suc)
    finally show ?thesis using Suc by (simp add: pushed_page_def del: upt_Suc)
  qed
  have d: "offset (pushed_page missing P batch) ! (Size P + g + 1)
           - offset (pushed_page missing P batch) ! (Size P + g) = length (?row g)"
    unfolding o1 o2 by simp
  have "inst (pushed_page missing P batch) (Size P + g)
        = take (length (?row g))
            (drop (?L + sum_list (map (\<lambda>i. length (?row i)) [0..<g]))
                  (data P @ concat (map ?row [0..<?G])))"
    unfolding inst_def d unfolding o1 by (simp add: pushed_page_def length_concat_upto)
  also have "\<dots> = take (length (?row g))
            (drop (sum_list (map (\<lambda>i. length (?row i)) [0..<g])) (concat (map ?row [0..<?G])))"
    by simp
  also have "\<dots> = ?row g" by (rule concat_upto_slice [OF g])
  finally show ?thesis .
qed

section \<open>The CSC merge of two pages with entries, and the shape invariant\<close>

lemma wf_offset_le_data:
  assumes "well_formed P" "i < length (offset P)"
  shows "offset P ! i \<le> length (data P)"
proof -
  have "offset P ! i \<le> offset P ! (length (offset P) - 1)"
    using assms by (intro sorted_nth_mono) (auto simp: well_formed_def)
  moreover have "last (offset P) = offset P ! (length (offset P) - 1)"
    using assms(1) by (intro last_conv_nth) (simp add: well_formed_def)
  ultimately show ?thesis using assms(1) by (simp add: well_formed_def)
qed

lemma wf_offset_step:
  assumes "well_formed P" "i + 1 < length (offset P)"
  shows "offset P ! i \<le> offset P ! (i + 1)"
  using assms by (intro sorted_nth_mono) (auto simp: well_formed_def)

lemma wf_sub64:
  assumes "well_formed P" "i + 1 < length (offset P)"
  shows "sub64 (offset P ! (i + 1)) (offset P ! i) = offset P ! (i + 1) - offset P ! i"
proof -
  have "offset P ! (i + 1) < 2 ^ 64"
    using wf_offset_le_data [OF assms] assms(1) by (simp add: well_formed_def)
  then show ?thesis using wf_offset_step [OF assms] by (intro sub64_minus)
qed

lemma wf_length_inst:
  assumes "well_formed P" "i + 1 < length (offset P)"
  shows "length (inst P i) = offset P ! (i + 1) - offset P ! i"
  using wf_offset_le_data [OF assms] by (simp add: inst_def)

lemma memcpy_fill:
  "length A = beg \<Longrightarrow> length src \<le> r \<Longrightarrow>
   memcpy (A @ replicate r d) beg src = (A @ src) @ replicate (r - length src) d"
  by (simp add: memcpy_def)

lemma PushCSC_step_ok:
  assumes wP: "well_formed P" and wB: "well_formed B"
      and len: "length (offset P) = length (offset B)"
      and i: "i + 1 < length (offset P)"
      and A: "length A = offset P ! i + offset B ! i"
      and off: "i + 1 < length off"
  shows "PushCSC_step (offset P) (data P) (offset B) (data B) i
           (offset P ! i + offset B ! i, i + 1,
            A @ replicate (length (data P) + length (data B) - (offset P ! i + offset B ! i)) default_Entry,
            off)
         = Inr (offset P ! (i + 1) + offset B ! (i + 1), i + 2,
                (A @ merged_column P B i) @
                  replicate (length (data P) + length (data B)
                              - (offset P ! (i + 1) + offset B ! (i + 1))) default_Entry,
                off[i + 1 := offset P ! (i + 1) + offset B ! (i + 1)])"
proof -
  let ?so = "offset P" and ?oo = "offset B"
  let ?N = "length (data P) + length (data B)"
  have iB: "i + 1 < length ?oo" using i len by simp
  have s1: "?so ! i \<le> ?so ! (i + 1)" by (rule wf_offset_step [OF wP i])
  have o1: "?oo ! i \<le> ?oo ! (i + 1)" by (rule wf_offset_step [OF wB iB])
  have s2: "?so ! (i + 1) \<le> length (data P)" by (rule wf_offset_le_data [OF wP i])
  have o2: "?oo ! (i + 1) \<le> length (data B)" by (rule wf_offset_le_data [OF wB iB])
  have sl: "sub64 (?so ! (i + 1)) (?so ! i) = ?so ! (i + 1) - ?so ! i" by (rule wf_sub64 [OF wP i])
  have ol: "sub64 (?oo ! (i + 1)) (?oo ! i) = ?oo ! (i + 1) - ?oo ! i" by (rule wf_sub64 [OF wB iB])
  have lP: "length (inst P i) = ?so ! (i + 1) - ?so ! i" by (rule wf_length_inst [OF wP i])
  have lB: "length (inst B i) = ?oo ! (i + 1) - ?oo ! i" by (rule wf_length_inst [OF wB iB])
  let ?r0 = "?N - (?so ! i + ?oo ! i)"
  have m1: "memcpy (A @ replicate ?r0 default_Entry) (?so ! i + ?oo ! i) (inst P i)
            = (A @ inst P i) @ replicate (?r0 - length (inst P i)) default_Entry"
    by (rule memcpy_fill [OF A]) (use lP s1 s2 o1 o2 in simp)
  let ?r1 = "?r0 - length (inst P i)"
  have A1: "length (A @ inst P i) = ?so ! i + ?oo ! i + (?so ! (i + 1) - ?so ! i)"
    using A lP by simp
  have m2: "memcpy ((A @ inst P i) @ replicate ?r1 default_Entry)
              (?so ! i + ?oo ! i + (?so ! (i + 1) - ?so ! i)) (inst B i)
            = ((A @ inst P i) @ inst B i) @ replicate (?r1 - length (inst B i)) default_Entry"
    by (rule memcpy_fill [OF A1]) (use lP lB s1 s2 o1 o2 in simp)
  have r2: "?r1 - length (inst B i) = ?N - (?so ! (i + 1) + ?oo ! (i + 1))"
    using lP lB s1 s2 o1 o2 by simp
  have b2: "?so ! i + ?oo ! i + (?so ! (i + 1) - ?so ! i) + (?oo ! (i + 1) - ?oo ! i)
            = ?so ! (i + 1) + ?oo ! (i + 1)"
    using s1 o1 by simp
  have lenA: "length (A @ replicate ?r0 default_Entry) = ?N"
    using A s1 s2 o1 o2 by simp
  have lenA1: "length ((A @ inst P i) @ replicate ?r1 default_Entry) = ?N"
    using A lP s1 s2 o1 o2 by simp
  have instP: "take (?so ! (i + 1) - ?so ! i) (drop (?so ! i) (data P)) = inst P i"
    by (simp add: inst_def)
  have instB: "take (?oo ! (i + 1) - ?oo ! i) (drop (?oo ! i) (data B)) = inst B i"
    by (simp add: inst_def)
  show ?thesis
    unfolding PushCSC_step_def prod.case Let_def sl ol instP instB m1 lenA m2 lenA1 r2 b2
    using i iB off s1 s2 o1 o2 by (simp add: merged_column_def)
qed

lemma replicate_update_same: "(replicate n x)[i := x] = replicate n x"
  by (cases "i < n") (auto intro!: nth_equalityI simp: nth_list_update)

lemma wf_offset_0: "well_formed P \<Longrightarrow> offset P ! 0 = 0"
  using hd_conv_nth [of "offset P"] by (auto simp: well_formed_def)

lemma wf_Size: "well_formed P \<Longrightarrow> length (offset P) = Size P + 1"
  by (simp add: well_formed_def Size_def)

lemma wf_offset_last: "well_formed P \<Longrightarrow> offset P ! Size P = length (data P)"
  using last_conv_nth [of "offset P"] by (auto simp: well_formed_def Size_def)

lemma PushCSC_loop:
  assumes wP: "well_formed P" and wB: "well_formed B"
      and len: "length (offset P) = length (offset B)"
  shows "k + 1 \<le> length (offset P) \<Longrightarrow>
     foldM (PushCSC_step (offset P) (data P) (offset B) (data B)) [0..<k]
       (0, 1, replicate (length (data P) + length (data B)) default_Entry,
        replicate (length (offset B)) 0)
     = Inr (offset P ! k + offset B ! k, k + 1,
            concat (map (merged_column P B) [0..<k]) @
              replicate (length (data P) + length (data B) - (offset P ! k + offset B ! k))
                default_Entry,
            map (\<lambda>j. offset P ! j + offset B ! j) [0..<k + 1] @
              replicate (length (offset B) - (k + 1)) 0) \<and>
     length (concat (map (merged_column P B) [0..<k])) = offset P ! k + offset B ! k"
proof (induction k)
  case 0
  have "replicate (length (offset B)) (0::nat) = 0 # replicate (length (offset B) - 1) 0"
    using 0 len by (cases "length (offset B)") auto
  then show ?case using wf_offset_0 [OF wP] wf_offset_0 [OF wB] by simp
next
  case (Suc k)
  let ?so = "offset P" and ?oo = "offset B"
  let ?A = "concat (map (merged_column P B) [0..<k])"
  let ?off = "map (\<lambda>j. ?so ! j + ?oo ! j) [0..<k + 1] @ replicate (length ?oo - (k + 1)) 0"
  have k: "k + 1 < length ?so" using Suc.prems by simp
  have ih: "foldM (PushCSC_step ?so (data P) ?oo (data B)) [0..<k]
       (0, 1, replicate (length (data P) + length (data B)) default_Entry,
        replicate (length ?oo) 0)
     = Inr (?so ! k + ?oo ! k, k + 1,
            ?A @ replicate (length (data P) + length (data B) - (?so ! k + ?oo ! k)) default_Entry,
            ?off)"
    and lA: "length ?A = ?so ! k + ?oo ! k"
    using Suc.IH k by simp_all
  have lo: "k + 1 < length ?off" using k len by simp
  have step: "PushCSC_step ?so (data P) ?oo (data B) k
           (?so ! k + ?oo ! k, k + 1,
            ?A @ replicate (length (data P) + length (data B) - (?so ! k + ?oo ! k)) default_Entry,
            ?off)
         = Inr (?so ! (k + 1) + ?oo ! (k + 1), k + 2,
                (?A @ merged_column P B k) @
                  replicate (length (data P) + length (data B)
                              - (?so ! (k + 1) + ?oo ! (k + 1))) default_Entry,
                ?off[k + 1 := ?so ! (k + 1) + ?oo ! (k + 1)])"
    by (rule PushCSC_step_ok [OF wP wB len k lA lo])
  have upd: "?off[k + 1 := ?so ! (k + 1) + ?oo ! (k + 1)]
             = map (\<lambda>j. ?so ! j + ?oo ! j) [0..<Suc k + 1] @ replicate (length ?oo - (Suc k + 1)) 0"
  proof -
    have "replicate (length ?oo - (k + 1)) (0::nat) = 0 # replicate (length ?oo - (Suc k + 1)) 0"
      using k len by (cases "length ?oo - (k + 1)") auto
    then show ?thesis by (simp add: list_update_append)
  qed
  have iB: "k + 1 < length ?oo" using k len by simp
  have lm: "length (merged_column P B k) = (?so ! (k + 1) - ?so ! k) + (?oo ! (k + 1) - ?oo ! k)"
    using wf_length_inst [OF wP k] wf_length_inst [OF wB iB] by (simp add: merged_column_def)
  have lA': "length (concat (map (merged_column P B) [0..<Suc k])) = ?so ! Suc k + ?oo ! Suc k"
    using lA lm wf_offset_step [OF wP k] wf_offset_step [OF wB iB] by simp
  have "foldM (PushCSC_step ?so (data P) ?oo (data B)) [0..<Suc k]
       (0, 1, replicate (length (data P) + length (data B)) default_Entry,
        replicate (length ?oo) 0)
     = Inr (?so ! (k + 1) + ?oo ! (k + 1), k + 2,
                (?A @ merged_column P B k) @
                  replicate (length (data P) + length (data B)
                              - (?so ! (k + 1) + ?oo ! (k + 1))) default_Entry,
                ?off[k + 1 := ?so ! (k + 1) + ?oo ! (k + 1)])"
    using ih step by (simp add: foldM_append)
  then show ?case unfolding upd using lA' by simp
qed

lemma PushCSC_merges:
  assumes wP: "well_formed P" and wB: "well_formed B"
      and len: "length (offset P) = length (offset B)"
      and neP: "data P \<noteq> []" and neB: "data B \<noteq> []"
  shows "PushCSC B P =
           Inr (P\<lparr>data := concat (map (merged_column P B) [0..<Size P]),
                  offset := map (\<lambda>j. length (concat (map (merged_column P B) [0..<j])))
                              [0..<Size P + 1]\<rparr>)"
proof -
  let ?n = "Size P"
  have n: "length (offset P) = ?n + 1" by (rule wf_Size [OF wP])
  have nB: "length (offset B) - 1 = ?n" using n len by simp
  have sB: "Size B = ?n" using wf_Size [OF wB] n len by simp
  have fin: "length (data P) + length (data B) - (offset P ! ?n + offset B ! ?n) = 0"
    using wf_offset_last [OF wP] wf_offset_last [OF wB] sB by simp
  have offs: "map (\<lambda>j. offset P ! j + offset B ! j) [0..<?n + 1]
              = map (\<lambda>j. length (concat (map (merged_column P B) [0..<j]))) [0..<?n + 1]"
  proof (rule map_cong [OF refl])
    fix j assume "j \<in> set [0..<?n + 1]"
    then have "j + 1 \<le> length (offset P)" using n by auto
    from PushCSC_loop [OF wP wB len this]
    show "offset P ! j + offset B ! j = length (concat (map (merged_column P B) [0..<j]))"
      by simp
  qed
  have loop: "foldM (PushCSC_step (offset P) (data P) (offset B) (data B)) [0..<?n]
       (0, 1, replicate (length (data P) + length (data B)) default_Entry,
        replicate (length (offset B)) 0)
     = Inr (offset P ! ?n + offset B ! ?n, ?n + 1,
            concat (map (merged_column P B) [0..<?n]),
            map (\<lambda>j. length (concat (map (merged_column P B) [0..<j]))) [0..<?n + 1])"
    using PushCSC_loop [OF wP wB len, of ?n] n len fin offs by simp
  have oB: "offset B \<noteq> []" using wB by (simp add: well_formed_def)
  show ?thesis
    unfolding PushCSC_def Let_def replicate_update_same nB loop
    using neP neB len oB by simp
qed

lemma inst_cong: "offset Q = offset Q' \<Longrightarrow> data Q = data Q' \<Longrightarrow> inst Q i = inst Q' i"
  by (simp add: inst_def)

lemma PushCSC_columns:
  assumes "well_formed P" "well_formed B" "length (offset P) = length (offset B)"
      and "data P \<noteq> []" "data B \<noteq> []"
  shows "\<exists>P'. PushCSC B P = Inr P' \<and> Size P' = Size P \<and> base_rowid P' = base_rowid P \<and>
              shape_invariant P' \<and> (\<forall>j<Size P. inst P' j = inst P j @ inst B j)"
proof -
  let ?f = "merged_column P B"
  let ?P' = "P\<lparr>data := concat (map ?f [0..<Size P]),
                offset := map (\<lambda>j. length (concat (map ?f [0..<j]))) [0..<Size P + 1]\<rparr>"
  have r: "PushCSC B P = Inr ?P'" by (rule PushCSC_merges [OF assms])
  have s: "Size ?P' = Size P" by (simp add: Size_def)
  have sh: "shape_invariant ?P'" by (simp add: shape_invariant_def Size_def)
  have rows: "inst ?P' j = inst P j @ inst B j" if "j < Size P" for j
  proof -
    have "inst ?P' j = inst (page_of_rows ?f (Size P)) j"
      by (rule inst_cong) (simp_all add: page_of_rows_def)
    then show ?thesis using inst_page_of_rows [OF that, of ?f] by (simp add: merged_column_def)
  qed
  show ?thesis using r s sh rows by auto
qed

lemma PushCSC_shape:
  assumes "well_formed P" "well_formed B"
      and "data B = [] \<longrightarrow> data P = []"
      and "data P \<noteq> [] \<and> data B \<noteq> [] \<longrightarrow> length (offset P) = length (offset B)"
  shows "\<exists>P'. PushCSC B P = Inr P' \<and> shape_invariant P'"
proof (cases "data B = []")
  case True
  then show ?thesis using assms
    by (simp add: PushCSC_def Let_def shape_invariant_def well_formed_def Size_def)
next
  case False
  show ?thesis
  proof (cases "data P = []")
    case True
    then show ?thesis using False assms
      by (simp add: PushCSC_def Let_def shape_invariant_def well_formed_def Size_def)
  next
    case neP: False
    then show ?thesis using PushCSC_columns [OF assms(1,2) _ neP False] assms(4) False by auto
  qed
qed

lemma PushCSC_example:
  "PushCSC \<lparr>offset = [0, 0, 1], data = [\<lparr>index = 1, fvalue = 0x40000000\<rparr>], base_rowid = 0\<rparr>
           \<lparr>offset = [0, 1, 1], data = [\<lparr>index = 0, fvalue = 0x3F800000\<rparr>], base_rowid = 0\<rparr>
   = Inr \<lparr>offset = [0, 1, 2],
          data = [\<lparr>index = 0, fvalue = 0x3F800000\<rparr>, \<lparr>index = 1, fvalue = 0x40000000\<rparr>],
          base_rowid = 0\<rparr>"
  by (simp add: PushCSC_def PushCSC_step_def Let_def memcpy_def sub64_def default_Entry_def)

lemma length_sort_range:
  "\<forall>ys. length (std_sort ys) = length ys \<Longrightarrow> length (sort_range std_sort b e xs) = length xs"
  by (auto simp: sort_range_def Let_def)

lemma length_fold_sort:
  "\<forall>i xs. length (f i xs) = length xs \<Longrightarrow> length (fold f js xs) = length xs"
  by (induction js arbitrary: xs) auto

lemma SortIndices_shape:
  assumes "\<forall>ys. length (std_sort ys) = length ys"
  shows "shape_invariant (SortIndices std_sort P) = shape_invariant P"
proof -
  have "length (data (SortIndices std_sort P)) = length (data P)"
    unfolding SortIndices_def using length_sort_range [OF assms]
    by (simp add: length_fold_sort)
  then show ?thesis by (simp add: shape_invariant_def SortIndices_def Size_def)
qed

lemma SortRows_shape:
  assumes "\<forall>ys. length (std_sort ys) = length ys"
  shows "shape_invariant (SortRows std_sort P) = shape_invariant P"
proof -
  have "length (data (SortRows std_sort P)) = length (data P)"
    unfolding SortRows_def using length_sort_range [OF assms]
    by (simp add: length_fold_sort)
  then show ?thesis by (simp add: shape_invariant_def SortRows_def Size_def)
qed

end
